theory Spec2Isabelle
  imports Main "HOL-Library.Product_Lexorder" "HOL-Library.Multiset"
begin

section \<open>Edits\<close>

text \<open>
  A text is a sequence of bytes. An offset is a Go \<^verbatim>\<open>int\<close>, 64 bits wide. Two places of
  the package do arithmetic that can wrap around: the subtraction of two starts in
  \<^verbatim>\<open>Less\<close>, and the running size of validation. Both are modelled twice. \<open>Less64\<close>,
  \<open>IsSorted64\<close>, \<open>SortEdits64\<close>, \<open>validateLoop64\<close> and \<open>Validate64\<close> write the 64-bit
  wrap-around out, as the code computes. \<open>Less\<close>, \<open>IsSorted\<close>, \<open>SortEdits\<close>,
  \<open>validateLoop\<close>, \<open>Validate\<close> and \<open>validate\<close> are the same text over the unbounded
  integers, in which the properties of edits that pass validation are stated: such edits
  have all their offsets between 0 and the length of the source, where nothing wraps
  (\<open>Validate64_of_valid\<close> below).
\<close>

type_synonym bytes = "char list"

record Edit =
  Start :: int
  End :: int
  New :: bytes

text \<open>The two errors of validation: "diff has out-of-bounds edits" and
  "diff has overlapping edits".\<close>

datatype error = OutOfBounds | Overlapping

text \<open>The run-time panics of the package: a slice or index expression out of range,
  \<^verbatim>\<open>make\<close> with a negative capacity, and the explicit \<^verbatim>\<open>panic("wrong size")\<close> of Apply.\<close>

datatype panic = SliceOutOfRange | IndexOutOfRange | MakeSliceOutOfRange | WrongSize

subsection \<open>editsSort.Less\<close>

definition Less :: "Edit \<Rightarrow> Edit \<Rightarrow> bool" where
  "Less a b = (let cmp = Start a - Start b in if cmp \<noteq> 0 then cmp < 0 else End a < End b)"

definition wrap64 :: "int \<Rightarrow> int" where
  "wrap64 x = (x + 2 ^ 63) mod 2 ^ 64 - 2 ^ 63"

definition Less64 :: "Edit \<Rightarrow> Edit \<Rightarrow> bool" where
  "Less64 a b = (let cmp = wrap64 (Start a - Start b) in if cmp \<noteq> 0 then cmp < 0 else End a < End b)"

subsection \<open>sort.IsSorted and sort.Stable over editsSort\<close>

text \<open>
  \<^verbatim>\<open>sort.IsSorted\<close> walks the slice from the back and fails at the first \<^verbatim>\<open>Less(i, i-1)\<close>.
\<close>

fun IsSorted :: "Edit list \<Rightarrow> bool" where
  "IsSorted [] = True"
| "IsSorted [x] = True"
| "IsSorted (x # y # zs) = (\<not> Less y x \<and> IsSorted (y # zs))"

text \<open>
  \<^verbatim>\<open>sort.Stable\<close> is the insertion sort of the standard library: element \<open>i\<close> is
  swapped towards the front while \<^verbatim>\<open>Less(j, j-1)\<close> holds. \<open>sink\<close> works on the
  already sorted prefix, kept in reverse.
\<close>

fun sink :: "Edit \<Rightarrow> Edit list \<Rightarrow> Edit list" where
  "sink x [] = [x]"
| "sink x (y # ys) = (if Less x y then y # sink x ys else x # y # ys)"

definition SortEdits :: "Edit list \<Rightarrow> Edit list" where
  "SortEdits edits = rev (foldl (\<lambda>acc x. sink x acc) [] edits)"

subsection \<open>Validate\<close>

fun validateLoop :: "int \<Rightarrow> Edit list \<Rightarrow> int \<Rightarrow> int \<Rightarrow> error + int" where
  "validateLoop srcLen [] sz lastEnd = Inr sz"
| "validateLoop srcLen (edit # edits) sz lastEnd =
     (if \<not> (0 \<le> Start edit \<and> Start edit \<le> End edit \<and> End edit \<le> srcLen) then Inl OutOfBounds
      else if Start edit < lastEnd then Inl Overlapping
      else validateLoop srcLen edits (sz + int (length (New edit)) + Start edit - End edit) (End edit))"

text \<open>\<open>Inl err\<close> stands for the return \<^verbatim>\<open>(nil, 0, err)\<close>, \<open>Inr (edits, size)\<close> for
  \<^verbatim>\<open>(edits, size, nil)\<close>.\<close>

definition Validate :: "int \<Rightarrow> Edit list \<Rightarrow> error + (Edit list \<times> int)" where
  "Validate srcLen edits =
     (let edits' = (if \<not> IsSorted edits then SortEdits edits else edits) in
      case validateLoop srcLen edits' srcLen 0 of
        Inl err \<Rightarrow> Inl err
      | Inr sz \<Rightarrow> Inr (edits', sz))"

text \<open>The older \<^verbatim>\<open>validate\<close> takes the source itself and reads only its length.\<close>

definition validate :: "bytes \<Rightarrow> Edit list \<Rightarrow> error + (Edit list \<times> int)" where
  "validate src edits =
     (let edits' = (if \<not> IsSorted edits then SortEdits edits else edits) in
      case validateLoop (int (length src)) edits' (int (length src)) 0 of
        Inl err \<Rightarrow> Inl err
      | Inr sz \<Rightarrow> Inr (edits', sz))"

subsection \<open>Sorting and validation with 64-bit integers\<close>

text \<open>The values of an \<^verbatim>\<open>int\<close>.\<close>

definition representable :: "int \<Rightarrow> bool" where
  "representable x = (- (2 ^ 63) \<le> x \<and> x < 2 ^ 63)"

text \<open>
  \<^verbatim>\<open>sort.IsSorted\<close> and \<^verbatim>\<open>sort.Stable\<close> as above, driven by \<open>Less64\<close>.
  \<^verbatim>\<open>sort.Stable\<close> sorts blocks of 20 elements by insertion and then merges the blocks:
  up to 20 edits it is the insertion sort written here. For longer lists \<open>SortEdits64\<close>
  stands for it where \<open>Less64\<close> is the order by (start, end), since every stable sort
  returns the same list then; that is the case on the lists called \<open>startsComparable\<close>
  below.
\<close>

fun IsSorted64 :: "Edit list \<Rightarrow> bool" where
  "IsSorted64 [] = True"
| "IsSorted64 [x] = True"
| "IsSorted64 (x # y # zs) = (\<not> Less64 y x \<and> IsSorted64 (y # zs))"

fun sink64 :: "Edit \<Rightarrow> Edit list \<Rightarrow> Edit list" where
  "sink64 x [] = [x]"
| "sink64 x (y # ys) = (if Less64 x y then y # sink64 x ys else x # y # ys)"

definition SortEdits64 :: "Edit list \<Rightarrow> Edit list" where
  "SortEdits64 edits = rev (foldl (\<lambda>acc x. sink64 x acc) [] edits)"

text \<open>The loop of validation; \<^verbatim>\<open>size += len(edit.New) + edit.Start - edit.End\<close> wraps.\<close>

fun validateLoop64 :: "int \<Rightarrow> Edit list \<Rightarrow> int \<Rightarrow> int \<Rightarrow> error + int" where
  "validateLoop64 srcLen [] sz lastEnd = Inr sz"
| "validateLoop64 srcLen (edit # edits) sz lastEnd =
     (if \<not> (0 \<le> Start edit \<and> Start edit \<le> End edit \<and> End edit \<le> srcLen) then Inl OutOfBounds
      else if Start edit < lastEnd then Inl Overlapping
      else validateLoop64 srcLen edits
             (wrap64 (sz + int (length (New edit)) + Start edit - End edit)) (End edit))"

definition Validate64 :: "int \<Rightarrow> Edit list \<Rightarrow> error + (Edit list \<times> int)" where
  "Validate64 srcLen edits =
     (let edits' = (if \<not> IsSorted64 edits then SortEdits64 edits else edits) in
      case validateLoop64 srcLen edits' srcLen 0 of
        Inl err \<Rightarrow> Inl err
      | Inr sz \<Rightarrow> Inr (edits', sz))"

text \<open>The edit lists on which the subtraction of \<^verbatim>\<open>Less\<close> does not overflow: any two
  starts differ by less than \<open>2 ^ 63\<close>.\<close>

definition startsComparable :: "Edit list \<Rightarrow> bool" where
  "startsComparable E = list_all (\<lambda>a. list_all (\<lambda>b. representable (Start a - Start b)) E) E"

subsection \<open>Sorting and validation, as the documentation states them\<close>

definition key :: "Edit \<Rightarrow> int \<times> int" where
  "key e = (Start e, End e)"

definition sinkAll :: "Edit list \<Rightarrow> Edit list" where
  "sinkAll edits = foldl (\<lambda>acc x. sink x acc) [] edits"

definition inBounds :: "int \<Rightarrow> Edit \<Rightarrow> bool" where
  "inBounds L e = (0 \<le> Start e \<and> Start e \<le> End e \<and> End e \<le> L)"

definition overlapsPrev :: "Edit list \<Rightarrow> nat \<Rightarrow> bool" where
  "overlapsPrev S i = (0 < i \<and> Start (S ! i) < End (S ! (i - 1)))"

definition offends :: "int \<Rightarrow> Edit list \<Rightarrow> nat \<Rightarrow> bool" where
  "offends L S i = (\<not> inBounds L (S ! i) \<or> overlapsPrev S i)"

definition firstOffender :: "int \<Rightarrow> Edit list \<Rightarrow> nat \<Rightarrow> bool" where
  "firstOffender L S i = (i < length S \<and> offends L S i \<and> (\<forall>j\<in>{0..<i}. \<not> offends L S j))"

definition patchedSize :: "int \<Rightarrow> Edit list \<Rightarrow> int" where
  "patchedSize L S = L + (\<Sum>e\<leftarrow>S. int (length (New e)) + Start e - End e)"

definition prevEnd :: "int \<Rightarrow> Edit list \<Rightarrow> nat \<Rightarrow> int" where
  "prevEnd lastEnd es i = (if i = 0 then lastEnd else End (es ! (i - 1)))"

definition okAt :: "int \<Rightarrow> int \<Rightarrow> Edit list \<Rightarrow> nat \<Rightarrow> bool" where
  "okAt L lastEnd es i = (inBounds L (es ! i) \<and> prevEnd lastEnd es i \<le> Start (es ! i))"

text \<open>The order of the sort: ascending start, then ascending end.\<close>

definition byStartEnd :: "Edit \<Rightarrow> Edit \<Rightarrow> bool" where
  "byStartEnd a b = (Start a < Start b \<or> (Start a = Start b \<and> End a \<le> End b))"

subsection \<open>Slices and indexing\<close>

text \<open>
  A text is a Go string (or a byte slice whose capacity is its length): the slice
  expression \<^verbatim>\<open>s[lo:hi]\<close> panics unless \<open>0 \<le> lo \<le> hi \<le> len(s)\<close>, and \<^verbatim>\<open>s[i]\<close> panics
  unless \<open>0 \<le> i < len(s)\<close>.
\<close>

definition slice :: "bytes \<Rightarrow> int \<Rightarrow> int \<Rightarrow> panic + bytes" where
  "slice s lo hi =
     (if 0 \<le> lo \<and> lo \<le> hi \<and> hi \<le> int (length s)
      then Inr (take (nat (hi - lo)) (drop (nat lo) s))
      else Inl SliceOutOfRange)"

definition index :: "'a list \<Rightarrow> int \<Rightarrow> panic + 'a" where
  "index s i = (if 0 \<le> i \<and> i < int (length s) then Inr (s ! nat i) else Inl IndexOutOfRange)"

subsection \<open>Apply\<close>

text \<open>The loop of Apply over the validated edits, with the output buffer and \<^verbatim>\<open>lastEnd\<close>.\<close>

fun applyLoop :: "bytes \<Rightarrow> Edit list \<Rightarrow> bytes \<Rightarrow> int \<Rightarrow> panic + (bytes \<times> int)" where
  "applyLoop src [] out lastEnd = Inr (out, lastEnd)"
| "applyLoop src (edit # edits) out lastEnd =
     (if lastEnd < Start edit
      then (case slice src lastEnd (Start edit) of
              Inl p \<Rightarrow> Inl p
            | Inr between \<Rightarrow> applyLoop src edits (out @ between @ New edit) (End edit))
      else applyLoop src edits (out @ New edit) (End edit))"

text \<open>
  What Apply does once validation has returned the sorted edits and the size:
  \<^verbatim>\<open>make([]byte, 0, size)\<close> panics on a negative capacity, the loop and the final
  \<^verbatim>\<open>src[lastEnd:]\<close> slice the source, and the length of the result is checked.
\<close>

definition applyValidated :: "bytes \<Rightarrow> Edit list \<Rightarrow> int \<Rightarrow> panic + (bytes \<times> error option)" where
  "applyValidated src edits sz =
     (if sz < 0 then Inl MakeSliceOutOfRange
      else case applyLoop src edits [] 0 of
        Inl p \<Rightarrow> Inl p
      | Inr (out, lastEnd) \<Rightarrow>
          (case slice src lastEnd (int (length src)) of
             Inl p \<Rightarrow> Inl p
           | Inr rest \<Rightarrow>
               if int (length (out @ rest)) \<noteq> sz then Inl WrongSize
               else Inr (out @ rest, None)))"

text \<open>
  \<open>Inr (out, err)\<close> is the returned pair, \<open>Inl p\<close> a panic. The Apply of the later
  revision calls \<^verbatim>\<open>Validate(len(src), edits)\<close> instead of \<^verbatim>\<open>validate(src, edits)\<close> and
  is otherwise the same text.
\<close>

definition Apply :: "bytes \<Rightarrow> Edit list \<Rightarrow> panic + (bytes \<times> error option)" where
  "Apply src edits =
     (case validate src edits of
        Inl err \<Rightarrow> Inr ([], Some err)
      | Inr (edits', sz) \<Rightarrow> applyValidated src edits' sz)"

text \<open>The patched text as the documentation describes it: the source with the range of
  each edit replaced by its new text, from \<^verbatim>\<open>lastEnd\<close> on.\<close>

fun splice :: "bytes \<Rightarrow> int \<Rightarrow> Edit list \<Rightarrow> bytes" where
  "splice src lastEnd [] = drop (nat lastEnd) src"
| "splice src lastEnd (e # es) =
     take (nat (Start e - lastEnd)) (drop (nat lastEnd) src) @ New e @ splice src (End e) es"

subsection \<open>Validate over a store of backing arrays\<close>

text \<open>
  To speak about the caller's slice, the backing arrays live in a store: an address is
  an index into the list of arrays and a slice is the address of its array.
  \<^verbatim>\<open>append([]Edit(nil), edits...)\<close> allocates a new array holding a copy, and
  \<^verbatim>\<open>SortEdits\<close> sorts the array it is given in place. The comparisons and the size are
  those of the code, with 64-bit integers.
\<close>

type_synonym store = "Edit list list"

definition alloc :: "store \<Rightarrow> Edit list \<Rightarrow> store \<times> nat" where
  "alloc h v = (h @ [v], length h)"

definition SortEdits_store :: "store \<Rightarrow> nat \<Rightarrow> store" where
  "SortEdits_store h a = h[a := SortEdits64 (h ! a)]"

definition Validate_store :: "store \<Rightarrow> int \<Rightarrow> nat \<Rightarrow> store \<times> (error + (nat \<times> int))" where
  "Validate_store h srcLen edits =
     (let (h', edits') =
        (if \<not> IsSorted64 (h ! edits)
         then (let (h1, copy) = alloc h (h ! edits) in (SortEdits_store h1 copy, copy))
         else (h, edits))
      in (h', case validateLoop64 srcLen (h' ! edits') srcLen 0 of
                Inl err \<Rightarrow> Inl err
              | Inr sz \<Rightarrow> Inr (edits', sz)))"

text \<open>The value a returned slice stands for.\<close>

definition deref :: "store \<Rightarrow> error + (nat \<times> int) \<Rightarrow> error + (Edit list \<times> int)" where
  "deref h r = (case r of Inl err \<Rightarrow> Inl err | Inr (a, sz) \<Rightarrow> Inr (h ! a, sz))"

subsection \<open>ApplyTo\<close>

text \<open>
  The reader is an in-memory reader, given by the bytes it has not yet delivered; the
  writer is an in-memory buffer, given by the bytes written so far, and its \<^verbatim>\<open>Write\<close>
  never fails. The only I/O error left is the end of the input.
\<close>

datatype ioerror = EOF

text \<open>
  \<^verbatim>\<open>io.CopyN(dst, src, n)\<close>: copies \<open>n\<close> bytes, or everything that is left together with
  \<^verbatim>\<open>io.EOF\<close> when the reader holds fewer; for \<open>n \<le> 0\<close> nothing is read. The result is the
  buffer, the reader, the count and the error.
\<close>

definition CopyN :: "bytes \<Rightarrow> bytes \<Rightarrow> int \<Rightarrow> bytes \<times> bytes \<times> int \<times> ioerror option" where
  "CopyN dst src n =
     (if n \<le> 0 then (dst, src, 0, None)
      else if n \<le> int (length src) then (dst @ take (nat n) src, drop (nat n) src, n, None)
      else (dst @ src, [], int (length src), Some EOF))"

text \<open>\<^verbatim>\<open>io.CopyN(io.Discard, src, n)\<close>: the reader afterwards, and the error.\<close>

definition DiscardN :: "bytes \<Rightarrow> int \<Rightarrow> bytes \<times> ioerror option" where
  "DiscardN src n = (case CopyN [] src n of (_, src', _, err) \<Rightarrow> (src', err))"

text \<open>
  The loop of ApplyTo: \<open>Inl\<close> is an early return with the bytes written and the error,
  \<open>Inr\<close> the state after the last edit.
\<close>

fun applyToLoop ::
  "Edit list \<Rightarrow> bytes \<Rightarrow> bytes \<Rightarrow> int \<Rightarrow> int \<Rightarrow> int \<Rightarrow>
     (bytes \<times> bytes \<times> int \<times> ioerror) + (bytes \<times> bytes \<times> int \<times> int \<times> int)" where
  "applyToLoop [] dst src cursor lastEnd written = Inr (dst, src, cursor, lastEnd, written)"
| "applyToLoop (edit # edits) dst src cursor lastEnd written =
     (if lastEnd < Start edit
      then (case DiscardN src (lastEnd - cursor) of
              (src1, Some err) \<Rightarrow> Inl (dst, src1, written, err)
            | (src1, None) \<Rightarrow>
                (case CopyN dst src1 (Start edit - lastEnd) of
                   (dst2, src2, w, Some err) \<Rightarrow> Inl (dst2, src2, written + w, err)
                 | (dst2, src2, w, None) \<Rightarrow>
                     applyToLoop edits (dst2 @ New edit) src2 (Start edit) (End edit)
                       (written + w + int (length (New edit)))))
      else applyToLoop edits (dst @ New edit) src cursor (End edit)
             (written + int (length (New edit))))"

text \<open>The result of ApplyTo: the writer, the reader, the count returned and the error
  returned, which is a validation error or an I/O error.\<close>

definition ApplyTo ::
  "bytes \<Rightarrow> bytes \<Rightarrow> int \<Rightarrow> Edit list \<Rightarrow> bytes \<times> bytes \<times> int \<times> (error + ioerror) option" where
  "ApplyTo dst src srcLen edits =
     (case Validate srcLen edits of
        Inl err \<Rightarrow> (dst, src, 0, Some (Inl err))
      | Inr (edits', _) \<Rightarrow>
          (case applyToLoop edits' dst src 0 0 0 of
             Inl (dst1, src1, written, err) \<Rightarrow> (dst1, src1, written, Some (Inr err))
           | Inr (dst1, src1, cursor, lastEnd, written) \<Rightarrow>
               (case DiscardN src1 (lastEnd - cursor) of
                  (src2, Some err) \<Rightarrow> (dst1, src2, written, Some (Inr err))
                | (src2, None) \<Rightarrow> (dst1 @ src2, [], written + int (length src2), None))))"

subsection \<open>lineEdits\<close>

text \<open>
  The helpers of the text package, on bytes: \<^verbatim>\<open>IndexByte\<close> and \<^verbatim>\<open>LastIndexByte\<close> return
  the first and the last position of a byte, or \<open>-1\<close>; \<^verbatim>\<open>ContainsAny(s, "\n")\<close> tells
  whether \<open>s\<close> holds a newline; \<^verbatim>\<open>Join\<close> with an empty separator and \<^verbatim>\<open>Concat\<close> append.
\<close>

definition nl :: char where
  "nl = CHR 0x0A"

fun IndexByte :: "bytes \<Rightarrow> char \<Rightarrow> int" where
  "IndexByte [] c = - 1"
| "IndexByte (x # xs) c =
     (if x = c then 0 else (let i = IndexByte xs c in if i < 0 then - 1 else i + 1))"

definition LastIndexByte :: "bytes \<Rightarrow> char \<Rightarrow> int" where
  "LastIndexByte s c =
     (let i = IndexByte (rev s) c in if i < 0 then - 1 else int (length s) - 1 - i)"

definition ContainsNewline :: "bytes \<Rightarrow> bool" where
  "ContainsNewline s = (nl \<in> set s)"

text \<open>expandEdit returns the edit expanded to whole lines: first the start is moved
  left to the start of its line, then the end is moved right past the end of its line.\<close>

definition expandLeft :: "Edit \<Rightarrow> bytes \<Rightarrow> panic + Edit" where
  "expandLeft edit src =
     (let start = Start edit in
      case slice src 0 start of
        Inl p \<Rightarrow> Inl p
      | Inr prefix \<Rightarrow>
          (let delta = start - 1 - LastIndexByte prefix nl in
           if delta > 0
           then (case slice src (start - delta) start of
                   Inl p \<Rightarrow> Inl p
                 | Inr s \<Rightarrow> Inr (edit\<lparr>Start := Start edit - delta, New := s @ New edit\<rparr>))
           else Inr edit))"

definition expandRight :: "Edit \<Rightarrow> bytes \<Rightarrow> panic + Edit" where
  "expandRight edit src =
     (let end = End edit in
      case slice src end (int (length src)) of
        Inl p \<Rightarrow> Inl p
      | Inr suffix \<Rightarrow>
          (let nli = IndexByte suffix nl;
               edit' = (if nli < 0 then edit\<lparr>End := int (length src)\<rparr>
                        else edit\<lparr>End := end + nli + 1\<rparr>) in
           case slice src end (End edit') of
             Inl p \<Rightarrow> Inl p
           | Inr s \<Rightarrow> Inr (edit'\<lparr>New := New edit' @ s\<rparr>)))"

definition expandEdit :: "Edit \<Rightarrow> bytes \<Rightarrow> panic + Edit" where
  "expandEdit edit src =
     (case expandLeft edit src of
        Inl p \<Rightarrow> Inl p
      | Inr edit' \<Rightarrow> expandRight edit' src)"

text \<open>
  The test of the fast path for one edit, with Go's short-circuit evaluation:
  \<^verbatim>\<open>Start >= len(src) || Start > 0 && src[Start-1] != '\n' || End > 0 && src[End-1] != '\n'\<close>.
\<close>

definition notNewlineAt :: "bytes \<Rightarrow> int \<Rightarrow> panic + bool" where
  "notNewlineAt src i = (case index src i of Inl p \<Rightarrow> Inl p | Inr c \<Rightarrow> Inr (c \<noteq> nl))"

definition misaligned :: "bytes \<Rightarrow> Edit \<Rightarrow> panic + bool" where
  "misaligned src edit =
     (if Start edit \<ge> int (length src) then Inr True
      else case (if Start edit > 0 then notNewlineAt src (Start edit - 1) else Inr False) of
        Inl p \<Rightarrow> Inl p
      | Inr True \<Rightarrow> Inr True
      | Inr False \<Rightarrow> (if End edit > 0 then notNewlineAt src (End edit - 1) else Inr False))"

fun anyMisaligned :: "bytes \<Rightarrow> Edit list \<Rightarrow> panic + bool" where
  "anyMisaligned src [] = Inr False"
| "anyMisaligned src (edit # edits) =
     (case misaligned src edit of
        Inl p \<Rightarrow> Inl p
      | Inr True \<Rightarrow> Inr True
      | Inr False \<Rightarrow> anyMisaligned src edits)"

text \<open>The loop after the label \<^verbatim>\<open>expand\<close>, over \<^verbatim>\<open>edits[1:]\<close>, with \<^verbatim>\<open>prev\<close> and \<^verbatim>\<open>expanded\<close>.\<close>

fun expandLoop :: "bytes \<Rightarrow> Edit \<Rightarrow> Edit list \<Rightarrow> Edit list \<Rightarrow> panic + Edit list" where
  "expandLoop src prev [] expanded =
     (case expandEdit prev src of Inl p \<Rightarrow> Inl p | Inr e \<Rightarrow> Inr (expanded @ [e]))"
| "expandLoop src prev (edit # edits) expanded =
     (case slice src (End prev) (Start edit) of
        Inl p \<Rightarrow> Inl p
      | Inr between \<Rightarrow>
          if \<not> ContainsNewline between
          then expandLoop src (prev\<lparr>New := New prev @ between @ New edit, End := End edit\<rparr>) edits expanded
          else (case expandEdit prev src of
                  Inl p \<Rightarrow> Inl p
                | Inr e \<Rightarrow> expandLoop src edit edits (expanded @ [e])))"

text \<open>\<open>Inr (edits, err)\<close> is the returned pair, with \<open>[]\<close> for the nil slice.\<close>

definition lineEdits :: "bytes \<Rightarrow> Edit list \<Rightarrow> panic + (Edit list \<times> error option)" where
  "lineEdits src edits =
     (case validate src edits of
        Inl err \<Rightarrow> Inr ([], Some err)
      | Inr (edits', _) \<Rightarrow>
          (case anyMisaligned src edits' of
             Inl p \<Rightarrow> Inl p
           | Inr False \<Rightarrow> Inr (edits', None)
           | Inr True \<Rightarrow>
               (case edits' of
                  [] \<Rightarrow> Inl IndexOutOfRange
                | prev # rest \<Rightarrow>
                    (case expandLoop src prev rest [] of
                       Inl p \<Rightarrow> Inl p
                     | Inr expanded \<Rightarrow> Inr (expanded, None)))))"

text \<open>
  The code after the label \<^verbatim>\<open>expand\<close> on its own, from \<^verbatim>\<open>prev := edits[0]\<close> to the final
  \<^verbatim>\<open>append(expanded, expandEdit(prev, src))\<close>: what lineEdits returns when it leaves the
  fast path.
\<close>

definition expandPath :: "bytes \<Rightarrow> Edit list \<Rightarrow> panic + Edit list" where
  "expandPath src edits =
     (case edits of
        [] \<Rightarrow> Inl IndexOutOfRange
      | prev # rest \<Rightarrow> expandLoop src prev rest [])"

text \<open>A line boundary of the source, as the documentation has it: offset 0 or a
  position just after a newline.\<close>

definition afterNewline :: "bytes \<Rightarrow> int \<Rightarrow> bool" where
  "afterNewline src i = (0 < i \<and> i \<le> int (length src) \<and> src ! nat (i - 1) = nl)"

definition lineAligned :: "bytes \<Rightarrow> Edit \<Rightarrow> bool" where
  "lineAligned src e =
     ((Start e = 0 \<or> afterNewline src (Start e)) \<and>
      (End e = 0 \<or> End e = int (length src) \<or> afterNewline src (End e)))"

text \<open>The segment \<^verbatim>\<open>src[lo:hi]\<close> when it is in range.\<close>

definition seg :: "bytes \<Rightarrow> int \<Rightarrow> int \<Rightarrow> bytes" where
  "seg src lo hi = take (nat (hi - lo)) (drop (nat lo) src)"

text \<open>The line boundaries expandEdit moves to: the start of the line that holds
  offset \<open>s\<close>, and the end (after the newline, or the end of the source) of the line
  that starts or continues at offset \<open>e\<close>.\<close>

definition lineStart :: "bytes \<Rightarrow> int \<Rightarrow> int" where
  "lineStart src s = LastIndexByte (seg src 0 s) nl + 1"

definition lineEnd :: "bytes \<Rightarrow> int \<Rightarrow> int" where
  "lineEnd src e =
     (let i = IndexByte (seg src e (int (length src))) nl in
      if i < 0 then int (length src) else e + i + 1)"

text \<open>Validated edits: each in bounds and none starting before the end of the one
  before it (or before \<open>lo\<close>, for the first).\<close>

fun chain :: "int \<Rightarrow> int \<Rightarrow> Edit list \<Rightarrow> bool" where
  "chain L lo [] = True"
| "chain L lo (e # es) = (inBounds L e \<and> lo \<le> Start e \<and> chain L (End e) es)"

text \<open>Alignment after expansion: the end is never left at offset 0 of a non-empty
  source.\<close>

definition expandedAligned :: "bytes \<Rightarrow> Edit \<Rightarrow> bool" where
  "expandedAligned src e =
     ((Start e = 0 \<or> afterNewline src (Start e)) \<and>
      (End e = int (length src) \<or> afterNewline src (End e)))"

text \<open>What the fast path of lineEdits accepts: an edit that starts before the end of
  the source, with its start and its end at offset 0 or just after a newline.\<close>

definition fastAligned :: "bytes \<Rightarrow> Edit \<Rightarrow> bool" where
  "fastAligned src e =
     (Start e < int (length src) \<and>
      (Start e = 0 \<or> afterNewline src (Start e)) \<and>
      (End e = 0 \<or> afterNewline src (End e)))"

subsection \<open>The Myers engine\<close>

text \<open>Writing one element of a slice: \<^verbatim>\<open>s[i] = v\<close> panics out of range.\<close>

definition store :: "'a list \<Rightarrow> int \<Rightarrow> 'a \<Rightarrow> panic + 'a list" where
  "store s i v = (if 0 \<le> i \<and> i < int (length s) then Inr (s[nat i := v]) else Inl IndexOutOfRange)"

text \<open>
  \<^verbatim>\<open>text.SplitAfter(t, "\n")\<close> cuts after every newline, so the last piece is what follows
  the last newline (possibly empty); splitLines drops an empty last piece.
\<close>

fun SplitAfter :: "bytes \<Rightarrow> bytes list" where
  "SplitAfter [] = [[]]"
| "SplitAfter (c # cs) =
     (if c = nl then [c] # SplitAfter cs
      else (case SplitAfter cs of [] \<Rightarrow> [[c]] | l # ls \<Rightarrow> (c # l) # ls))"

definition splitLines :: "bytes \<Rightarrow> bytes list" where
  "splitLines t = (let lines = SplitAfter t in if length (last lines) = 0 then butlast lines else lines)"

text \<open>
  The test shared by the forward pass and by backtrack:
  \<^verbatim>\<open>k == -d || (k != d && V[k-1+offset] < V[k+1+offset])\<close>.
\<close>

definition goesDown :: "int list \<Rightarrow> int \<Rightarrow> int \<Rightarrow> int \<Rightarrow> panic + bool" where
  "goesDown V k d offset =
     (if k = - d then Inr True
      else if k \<noteq> d
      then (case index V (k - 1 + offset) of
              Inl p \<Rightarrow> Inl p
            | Inr l \<Rightarrow> (case index V (k + 1 + offset) of Inl p \<Rightarrow> Inl p | Inr r \<Rightarrow> Inr (l < r)))
      else Inr False)"

text \<open>Diagonal moves while the lines are equal.\<close>

function slide :: "'a list \<Rightarrow> 'a list \<Rightarrow> int \<Rightarrow> int \<Rightarrow> panic + (int \<times> int)" where
  "slide a b x y =
     (if x < int (length a) \<and> y < int (length b)
      then (case index a x of
              Inl p \<Rightarrow> Inl p
            | Inr ax \<Rightarrow>
                (case index b y of
                   Inl p \<Rightarrow> Inl p
                 | Inr bv \<Rightarrow> if ax = bv then slide a b (x + 1) (y + 1) else Inr (x, y)))
      else Inr (x, y))"
  by pat_completeness auto
termination
  by (relation "measure (\<lambda>(a, b, x, y). nat (int (length a) - x))") auto

text \<open>The loop over \<open>k\<close> of one round \<open>d\<close>; the flag tells that the end was reached.\<close>

function kLoop :: "'a list \<Rightarrow> 'a list \<Rightarrow> int \<Rightarrow> int \<Rightarrow> int \<Rightarrow> int list \<Rightarrow> panic + (int list \<times> bool)" where
  "kLoop a b d offset k V =
     (if k \<le> d
      then (case goesDown V k d offset of
              Inl p \<Rightarrow> Inl p
            | Inr down \<Rightarrow>
                (case (if down then index V (k + 1 + offset)
                       else (case index V (k - 1 + offset) of Inl p \<Rightarrow> Inl p | Inr v \<Rightarrow> Inr (v + 1))) of
                   Inl p \<Rightarrow> Inl p
                 | Inr x \<Rightarrow>
                     (case slide a b x (x - k) of
                        Inl p \<Rightarrow> Inl p
                      | Inr (x', y') \<Rightarrow>
                          (case store V (k + offset) x' of
                             Inl p \<Rightarrow> Inl p
                           | Inr V' \<Rightarrow>
                               if x' = int (length a) \<and> y' = int (length b) then Inr (V', True)
                               else kLoop a b d offset (k + 2) V'))))
      else Inr (V, False))"
  by pat_completeness auto
termination
  by (relation "measure (\<lambda>(a, b, d, offset, k, V). nat (d + 1 - k))") auto

text \<open>The loop over \<open>d\<close>. The result is the trace and the offset, or \<^verbatim>\<open>(nil, 0)\<close>.\<close>

function dLoop :: "'a list \<Rightarrow> 'a list \<Rightarrow> int \<Rightarrow> int list \<Rightarrow> int list list \<Rightarrow> panic + (int list list \<times> int)" where
  "dLoop a b d V trace =
     (if d \<le> int (length b) + int (length a)
      then (case kLoop a b d (int (length b) + int (length a)) (- d) V of
              Inl p \<Rightarrow> Inl p
            | Inr (V', found) \<Rightarrow>
                (case store trace d V' of
                   Inl p \<Rightarrow> Inl p
                 | Inr trace' \<Rightarrow>
                     if found then Inr (trace', int (length b) + int (length a))
                     else dLoop a b (d + 1) V' trace'))
      else Inr ([], 0))"
  by pat_completeness auto
termination
  by (relation "measure (\<lambda>(a, b, d, V, trace). nat (int (length b) + int (length a) + 1 - d))") auto

definition shortestEditSequence :: "'a list \<Rightarrow> 'a list \<Rightarrow> panic + (int list list \<times> int)" where
  "shortestEditSequence a b =
     (let M = length a; N = length b in
      dLoop a b 0 (replicate (2 * (N + M) + 1) 0) (replicate (N + M + 1) []))"

text \<open>backtrack: a snake is \<open>Some (x, y)\<close>, a nil entry \<open>None\<close>.\<close>

function backtrackLoop ::
  "int list list \<Rightarrow> int \<Rightarrow> (int \<times> int) option list \<Rightarrow> int \<Rightarrow> int \<Rightarrow> int \<Rightarrow>
     panic + ((int \<times> int) option list \<times> int \<times> int \<times> int)" where
  "backtrackLoop trace offset snakes x y d =
     (if x > 0 \<and> y > 0 \<and> d > 0
      then (case index trace d of
              Inl p \<Rightarrow> Inl p
            | Inr V \<Rightarrow>
                if length V = 0 then backtrackLoop trace offset snakes x y (d - 1)
                else (case store snakes d (Some (x, y)) of
                        Inl p \<Rightarrow> Inl p
                      | Inr snakes' \<Rightarrow>
                          (let k = x - y in
                           case goesDown V k d offset of
                             Inl p \<Rightarrow> Inl p
                           | Inr down \<Rightarrow>
                               (let kPrev = (if down then k + 1 else k - 1) in
                                case index V (kPrev + offset) of
                                  Inl p \<Rightarrow> Inl p
                                | Inr x' \<Rightarrow> backtrackLoop trace offset snakes' x' (x' - kPrev) (d - 1)))))
      else Inr (snakes, x, y, d))"
  by pat_completeness auto
termination
  by (relation "measure (\<lambda>(trace, offset, snakes, x, y, d). nat d)") auto

definition backtrack :: "int list list \<Rightarrow> int \<Rightarrow> int \<Rightarrow> int \<Rightarrow> panic + (int \<times> int) option list" where
  "backtrack trace x y offset =
     (case backtrackLoop trace offset (replicate (length trace) None) x y (int (length trace) - 1) of
        Inl p \<Rightarrow> Inl p
      | Inr (snakes, x', y', d) \<Rightarrow>
          if x' < 0 \<or> y' < 0 then Inr snakes
          else store snakes d (Some (x', y')))"

datatype OpKind = Delete | Insert | Equal

record Operation =
  Kind :: OpKind
  OpStart :: int
  OpEnd :: int
  ReplStart :: int
  ReplEnd :: int

text \<open>The three inner loops of Operations over one snake \<open>(sx, sy)\<close>, with \<open>k = sx - sy\<close>.\<close>

function deleteLoop :: "int \<Rightarrow> int \<Rightarrow> int \<Rightarrow> int \<Rightarrow> int" where
  "deleteLoop k M x y =
     (if k > x - y then (if x + 1 = M then x + 1 else deleteLoop k M (x + 1) y) else x)"
  by pat_completeness auto
termination
  by (relation "measure (\<lambda>(k, M, x, y). nat (k - (x - y)))") auto

function insertLoop :: "int \<Rightarrow> int \<Rightarrow> int \<Rightarrow> int" where
  "insertLoop k x y = (if k < x - y then insertLoop k x (y + 1) else y)"
  by pat_completeness auto
termination
  by (relation "measure (\<lambda>(k, x, y). nat (x - y - k))") auto

function equalLoop :: "int \<Rightarrow> int \<Rightarrow> int \<Rightarrow> int \<times> int" where
  "equalLoop sx x y = (if x < sx then equalLoop sx (x + 1) (y + 1) else (x, y))"
  by pat_completeness auto
termination
  by (relation "measure (\<lambda>(sx, x, y). nat (sx - x))") auto

text \<open>\<^verbatim>\<open>add\<close> writes \<^verbatim>\<open>solution[i]\<close>, which holds \<open>M + N\<close> operations; the solution is kept
  here as the list of the operations written so far.\<close>

definition add :: "int \<Rightarrow> Operation list \<Rightarrow> Operation \<Rightarrow> int \<Rightarrow> int \<Rightarrow> panic + Operation list" where
  "add cap solution oper i2 j2 =
     (let op1 = oper\<lparr>OpEnd := i2\<rparr>;
          op2 = (if Kind op1 = Insert then op1\<lparr>ReplEnd := j2\<rparr> else op1) in
      if int (length solution) < cap then Inr (solution @ [op2]) else Inl IndexOutOfRange)"

fun snakesLoop ::
  "int \<Rightarrow> int \<Rightarrow> (int \<times> int) option list \<Rightarrow> int \<Rightarrow> int \<Rightarrow> Operation list \<Rightarrow> panic + Operation list" where
  "snakesLoop M N [] x y solution = Inr solution"
| "snakesLoop M N (None # snakes) x y solution = snakesLoop M N snakes x y solution"
| "snakesLoop M N (Some (sx, sy) # snakes) x y solution =
     (case (if sx - sy > x - y
            then (let x1 = deleteLoop (sx - sy) M x y in
                  case add (M + N) solution \<lparr>Kind = Delete, OpStart = x, OpEnd = 0, ReplStart = y, ReplEnd = 0\<rparr> x1 y of
                    Inl p \<Rightarrow> Inl p
                  | Inr s \<Rightarrow> Inr (x1, s))
            else Inr (x, solution)) of
        Inl p \<Rightarrow> Inl p
      | Inr (x1, solution1) \<Rightarrow>
          (case (if sx - sy < x1 - y
                 then (let y1 = insertLoop (sx - sy) x1 y in
                       case add (M + N) solution1 \<lparr>Kind = Insert, OpStart = x1, OpEnd = 0, ReplStart = y, ReplEnd = 0\<rparr> x1 y1 of
                         Inl p \<Rightarrow> Inl p
                       | Inr s \<Rightarrow> Inr (y1, s))
                 else Inr (y, solution1)) of
             Inl p \<Rightarrow> Inl p
           | Inr (y1, solution2) \<Rightarrow>
               (case equalLoop sx x1 y1 of
                  (x2, y2) \<Rightarrow>
                    if x2 \<ge> M \<and> y2 \<ge> N then Inr solution2
                    else snakesLoop M N snakes x2 y2 solution2)))"

definition Operations :: "'a list \<Rightarrow> 'a list \<Rightarrow> panic + Operation list" where
  "Operations a b =
     (if length a = 0 \<and> length b = 0 then Inr []
      else case shortestEditSequence a b of
        Inl p \<Rightarrow> Inl p
      | Inr (trace, offset) \<Rightarrow>
          (case backtrack trace (int (length a)) (int (length b)) offset of
             Inl p \<Rightarrow> Inl p
           | Inr snakes \<Rightarrow> snakesLoop (int (length a)) (int (length b)) snakes 0 0 []))"

text \<open>The table of ComputeEdits from line number to offset, with the total at the end.\<close>

fun lineOffsetsFrom :: "int \<Rightarrow> bytes list \<Rightarrow> int list" where
  "lineOffsetsFrom tot [] = [tot]"
| "lineOffsetsFrom tot (l # ls) = tot # lineOffsetsFrom (tot + int (length l)) ls"

text \<open>\<^verbatim>\<open>lines[lo:hi]\<close> on a slice of lines.\<close>

definition sliceLines :: "'a list \<Rightarrow> int \<Rightarrow> int \<Rightarrow> panic + 'a list" where
  "sliceLines s lo hi =
     (if 0 \<le> lo \<and> lo \<le> hi \<and> hi \<le> int (length s)
      then Inr (take (nat (hi - lo)) (drop (nat lo) s))
      else Inl SliceOutOfRange)"

fun opsToEdits :: "int list \<Rightarrow> bytes list \<Rightarrow> Operation list \<Rightarrow> Edit list \<Rightarrow> panic + Edit list" where
  "opsToEdits lineOffsets afterLines [] edits = Inr edits"
| "opsToEdits lineOffsets afterLines (oper # opers) edits =
     (case index lineOffsets (OpStart oper) of
        Inl p \<Rightarrow> Inl p
      | Inr start \<Rightarrow>
          (case index lineOffsets (OpEnd oper) of
             Inl p \<Rightarrow> Inl p
           | Inr endo \<Rightarrow>
               (case Kind oper of
                  Delete \<Rightarrow> opsToEdits lineOffsets afterLines opers (edits @ [\<lparr>Start = start, End = endo, New = []\<rparr>])
                | Insert \<Rightarrow>
                    (case sliceLines afterLines (ReplStart oper) (ReplEnd oper) of
                       Inl p \<Rightarrow> Inl p
                     | Inr ls \<Rightarrow>
                         (let content = concat ls in
                          if length content \<noteq> 0
                          then opsToEdits lineOffsets afterLines opers (edits @ [\<lparr>Start = start, End = endo, New = content\<rparr>])
                          else opsToEdits lineOffsets afterLines opers edits))
                | Equal \<Rightarrow> opsToEdits lineOffsets afterLines opers edits)))"

definition ComputeEdits :: "bytes \<Rightarrow> bytes \<Rightarrow> panic + Edit list" where
  "ComputeEdits beforeText afterText =
     (let beforeLines = splitLines beforeText; afterLines = splitLines afterText in
      case Operations beforeLines afterLines of
        Inl p \<Rightarrow> Inl p
      | Inr opers \<Rightarrow> opsToEdits (lineOffsetsFrom 0 beforeLines) afterLines opers [])"

subsection \<open>The edit graph\<close>

text \<open>
  The notions the correctness argument of the Myers engine is stated in. \<open>lcp\<close> is the
  length of the longest common prefix, \<open>snakeEnd\<close> the \<open>x\<close> at which the diagonal moves
  from \<open>(x, y)\<close> stop.
\<close>

fun lcp :: "'a list \<Rightarrow> 'a list \<Rightarrow> nat" where
  "lcp (x # xs) (y # ys) = (if x = y then Suc (lcp xs ys) else 0)"
| "lcp [] ys = 0"
| "lcp xs [] = 0"

definition snakeEnd :: "'a list \<Rightarrow> 'a list \<Rightarrow> int \<Rightarrow> int \<Rightarrow> int" where
  "snakeEnd a b x y = x + int (lcp (drop (nat x) a) (drop (nat y) b))"

text \<open>\<open>Fm a b d k\<close> is the value the forward pass stores for diagonal \<open>k\<close> in round \<open>d\<close>.\<close>

fun Fm :: "'a list \<Rightarrow> 'a list \<Rightarrow> nat \<Rightarrow> int \<Rightarrow> int" where
  "Fm a b 0 k = snakeEnd a b 0 (- k)"
| "Fm a b (Suc d) k =
     (let st = (if k = - int (Suc d) \<or> (k \<noteq> int (Suc d) \<and> Fm a b d (k - 1) < Fm a b d (k + 1))
                then Fm a b d (k + 1) else Fm a b d (k - 1) + 1)
      in snakeEnd a b st (st - k))"

text \<open>The \<open>x\<close> from which round \<open>d\<close> starts its diagonal moves on diagonal \<open>k\<close>.\<close>

definition startX :: "'a list \<Rightarrow> 'a list \<Rightarrow> nat \<Rightarrow> int \<Rightarrow> int" where
  "startX a b d k =
     (if d = 0 then 0
      else if k = - int d \<or> (k \<noteq> int d \<and> Fm a b (d - 1) (k - 1) < Fm a b (d - 1) (k + 1))
      then Fm a b (d - 1) (k + 1) else Fm a b (d - 1) (k - 1) + 1)"

text \<open>The diagonals round \<open>d\<close> visits: \<open>-d, -d + 2, \<dots>, d\<close>.\<close>

definition onRound :: "nat \<Rightarrow> int \<Rightarrow> bool" where
  "onRound d k = (- int d \<le> k \<and> k \<le> int d \<and> even (int d - k))"

text \<open>
  \<open>reach a b d x y\<close>: the point \<open>(x, y)\<close> is the end of a path from the origin with exactly
  \<open>d\<close> horizontal or vertical moves; diagonal moves exist only inside the grid, between
  equal elements.
\<close>

inductive reach :: "'a list \<Rightarrow> 'a list \<Rightarrow> nat \<Rightarrow> int \<Rightarrow> int \<Rightarrow> bool" for a b where
  origin: "reach a b 0 0 0"
| diag: "reach a b d x y \<Longrightarrow> 0 \<le> x \<Longrightarrow> 0 \<le> y \<Longrightarrow> x < int (length a) \<Longrightarrow> y < int (length b) \<Longrightarrow>
         a ! nat x = b ! nat y \<Longrightarrow> reach a b d (x + 1) (y + 1)"
| right: "reach a b d x y \<Longrightarrow> reach a b (Suc d) (x + 1) y"
| down: "reach a b d x y \<Longrightarrow> reach a b (Suc d) x (y + 1)"

text \<open>The first round in which the forward pass arrives at the end \<open>(M, N)\<close>.\<close>

definition foundAt :: "'a list \<Rightarrow> 'a list \<Rightarrow> nat \<Rightarrow> bool" where
  "foundAt a b d =
     (onRound d (int (length a) - int (length b)) \<and>
      Fm a b d (int (length a) - int (length b)) = int (length a))"

text \<open>
  What the vector \<open>V\<close> holds when round \<open>d\<close> reads it, with \<open>off\<close> the offset \<open>N + M\<close>:
  the values of round \<open>d - 1\<close> (for round 0, the initial zero next to the middle), and,
  below diagonal \<open>k\<close>, the values of round \<open>d\<close> written so far.
\<close>

definition prevOK :: "'a list \<Rightarrow> 'a list \<Rightarrow> int \<Rightarrow> int list \<Rightarrow> nat \<Rightarrow> bool" where
  "prevOK a b off V d =
     (int (length V) = 2 * off + 1 \<and>
      (d = 0 \<longrightarrow> V ! nat (1 + off) = 0) \<and>
      (\<forall>k. 0 < d \<and> onRound (d - 1) k \<longrightarrow> V ! nat (k + off) = Fm a b (d - 1) k))"

definition curOK :: "'a list \<Rightarrow> 'a list \<Rightarrow> int \<Rightarrow> int list \<Rightarrow> nat \<Rightarrow> int \<Rightarrow> bool" where
  "curOK a b off V d k0 = (\<forall>k. onRound d k \<and> k < k0 \<longrightarrow> V ! nat (k + off) = Fm a b d k)"

text \<open>The trace the forward pass returns when round \<open>D\<close> finds the end.\<close>

definition traceOK :: "'a list \<Rightarrow> 'a list \<Rightarrow> int \<Rightarrow> int list list \<Rightarrow> nat \<Rightarrow> bool" where
  "traceOK a b off trace D =
     (int (length trace) = off + 1 \<and>
      (\<forall>i. i \<le> D \<longrightarrow> prevOK a b off (trace ! i) i) \<and>
      (\<forall>i. D < i \<and> int i \<le> off \<longrightarrow> trace ! i = []))"

text \<open>
  The snakes backtrack returns form a path: from one point to the next there are some
  horizontal or some vertical moves, then \<open>t\<close> diagonal moves over equal elements, all
  inside the grid; the path ends at \<open>(M, N)\<close>.
\<close>

definition eqRun :: "'a list \<Rightarrow> 'a list \<Rightarrow> int \<Rightarrow> int \<Rightarrow> int \<Rightarrow> bool" where
  "eqRun a b x y t = (take (nat t) (drop (nat x) a) = take (nat t) (drop (nat y) b))"

definition gstep :: "'a list \<Rightarrow> 'a list \<Rightarrow> int \<times> int \<Rightarrow> int \<times> int \<Rightarrow> bool" where
  "gstep a b p q =
     (case (p, q) of ((x, y), (sx, sy)) \<Rightarrow>
        0 \<le> x \<and> 0 \<le> y \<and> x \<le> sx \<and> y \<le> sy \<and> sx \<le> int (length a) \<and> sy \<le> int (length b) \<and>
        (let t = min (sx - x) (sy - y) in eqRun a b (sx - t) (sy - t) t))"

fun gpath :: "'a list \<Rightarrow> 'a list \<Rightarrow> int \<times> int \<Rightarrow> (int \<times> int) list \<Rightarrow> bool" where
  "gpath a b p [] = (p = (int (length a), int (length b)))"
| "gpath a b p (q # qs) = (gstep a b p q \<and> gpath a b q qs)"

text \<open>
  An edit script from \<open>a[x:]\<close> to \<open>b[y:]\<close>: before each operation the two sides agree up
  to the start of the operation; a deletion removes the lines \<open>[Start, End)\<close> of \<open>a\<close>, an
  insertion puts the lines \<open>[ReplStart, ReplEnd)\<close> of \<open>b\<close> at \<open>Start\<close>; after the last
  operation the remainders are equal.
\<close>

fun scriptOK :: "'a list \<Rightarrow> 'a list \<Rightarrow> int \<Rightarrow> int \<Rightarrow> Operation list \<Rightarrow> bool" where
  "scriptOK a b x y [] = (0 \<le> x \<and> 0 \<le> y \<and> drop (nat x) a = drop (nat y) b)"
| "scriptOK a b x y (oper # opers) =
     (0 \<le> x \<and> 0 \<le> y \<and> x \<le> OpStart oper \<and> OpStart oper \<le> int (length a) \<and>
      y + (OpStart oper - x) \<le> int (length b) \<and>
      eqRun a b x y (OpStart oper - x) \<and>
      (case Kind oper of
         Delete \<Rightarrow>
           OpStart oper < OpEnd oper \<and> OpEnd oper \<le> int (length a) \<and>
           scriptOK a b (OpEnd oper) (y + (OpStart oper - x)) opers
       | Insert \<Rightarrow>
           OpEnd oper = OpStart oper \<and> ReplStart oper = y + (OpStart oper - x) \<and>
           ReplStart oper < ReplEnd oper \<and> ReplEnd oper \<le> int (length b) \<and>
           scriptOK a b (OpStart oper) (ReplEnd oper) opers
       | Equal \<Rightarrow> False))"

text \<open>The offset in the text at which line \<open>n\<close> starts.\<close>

definition offs :: "bytes list \<Rightarrow> nat \<Rightarrow> int" where
  "offs a n = int (length (concat (take n a)))"

subsection \<open>The sequence view of the LCS engine\<close>

text \<open>\<^verbatim>\<open>min\<close> of lcs/sequence.go.\<close>

definition minInt :: "int \<Rightarrow> int \<Rightarrow> int" where
  "minInt x y = (if x < y then x else y)"

text \<open>
  \<^verbatim>\<open>commonPrefixLenString\<close>: \<^verbatim>\<open>for i < n && a[i] == b[i] { i++ }\<close>, and
  \<^verbatim>\<open>commonSuffixLenString\<close>: \<^verbatim>\<open>for i < n && a[len(a)-1-i] == b[len(b)-1-i] { i++ }\<close>.
\<close>

function prefixLoop :: "bytes \<Rightarrow> bytes \<Rightarrow> int \<Rightarrow> int \<Rightarrow> panic + int" where
  "prefixLoop a b n i =
     (if i < n
      then (case index a i of
              Inl p \<Rightarrow> Inl p
            | Inr ax \<Rightarrow>
                (case index b i of
                   Inl p \<Rightarrow> Inl p
                 | Inr bv \<Rightarrow> if ax = bv then prefixLoop a b n (i + 1) else Inr i))
      else Inr i)"
  by pat_completeness auto
termination
  by (relation "measure (\<lambda>(a, b, n, i). nat (n - i))") auto

declare prefixLoop.simps [simp del]

definition commonPrefixLenString :: "bytes \<Rightarrow> bytes \<Rightarrow> panic + int" where
  "commonPrefixLenString a b = prefixLoop a b (minInt (int (length a)) (int (length b))) 0"

function suffixLoop :: "bytes \<Rightarrow> bytes \<Rightarrow> int \<Rightarrow> int \<Rightarrow> panic + int" where
  "suffixLoop a b n i =
     (if i < n
      then (case index a (int (length a) - 1 - i) of
              Inl p \<Rightarrow> Inl p
            | Inr ax \<Rightarrow>
                (case index b (int (length b) - 1 - i) of
                   Inl p \<Rightarrow> Inl p
                 | Inr bv \<Rightarrow> if ax = bv then suffixLoop a b n (i + 1) else Inr i))
      else Inr i)"
  by pat_completeness auto
termination
  by (relation "measure (\<lambda>(a, b, n, i). nat (n - i))") auto

declare suffixLoop.simps [simp del]

definition commonSuffixLenString :: "bytes \<Rightarrow> bytes \<Rightarrow> panic + int" where
  "commonSuffixLenString a b = suffixLoop a b (minInt (int (length a)) (int (length b))) 0"

text \<open>
  The methods of \<^verbatim>\<open>stringSeqs\<close>:
  \<^verbatim>\<open>commonPrefixLenString(s.a[ai:aj], s.b[bi:bj])\<close> and its suffix twin.
\<close>

definition commonPrefixLen :: "bytes \<Rightarrow> bytes \<Rightarrow> int \<Rightarrow> int \<Rightarrow> int \<Rightarrow> int \<Rightarrow> panic + int" where
  "commonPrefixLen a b ai aj bi bj =
     (case slice a ai aj of
        Inl p \<Rightarrow> Inl p
      | Inr sa \<Rightarrow> (case slice b bi bj of Inl p \<Rightarrow> Inl p | Inr sb \<Rightarrow> commonPrefixLenString sa sb))"

definition commonSuffixLen :: "bytes \<Rightarrow> bytes \<Rightarrow> int \<Rightarrow> int \<Rightarrow> int \<Rightarrow> int \<Rightarrow> panic + int" where
  "commonSuffixLen a b ai aj bi bj =
     (case slice a ai aj of
        Inl p \<Rightarrow> Inl p
      | Inr sa \<Rightarrow> (case slice b bi bj of Inl p \<Rightarrow> Inl p | Inr sb \<Rightarrow> commonSuffixLenString sa sb))"

subsection \<open>The LCS engine\<close>

text \<open>A diff of the lcs package, with the four fields \<^verbatim>\<open>diffASCII\<close> reads:
  \<open>[DiffStart, DiffEnd)\<close> of A is replaced by \<open>[DiffReplStart, DiffReplEnd)\<close> of B.\<close>

record Diff =
  DiffStart :: int
  DiffEnd :: int
  DiffReplStart :: int
  DiffReplEnd :: int

text \<open>
  Modelled from the spec: the divide-and-conquer pass of the LCS engine
  (\<^verbatim>\<open>lcs.DiffText\<close> and what it calls, apart from the sequence view above) is not among
  the sources. The spec leaves the choice of the anchor open beyond these words: the
  midpoint of the longer side, and on the other side a position where the common suffix
  before the anchor plus the common prefix after it is maximal, the smaller position on a
  tie, the anchor being interior to the window (neither of its two corners
  \<open>(ai, bi)\<close> and \<open>(aj, bj)\<close>). \<open>alignment\<close> is that sum for one candidate \<open>c\<close>.
\<close>

definition alignment ::
  "bytes \<Rightarrow> bytes \<Rightarrow> int \<Rightarrow> int \<Rightarrow> int \<Rightarrow> int \<Rightarrow> int \<times> int \<Rightarrow> panic + int" where
  "alignment a b ai aj bi bj c =
     (case commonSuffixLen a b ai (fst c) bi (snd c) of
        Inl p \<Rightarrow> Inl p
      | Inr s \<Rightarrow> (case commonPrefixLen a b (fst c) aj (snd c) bj of Inl p \<Rightarrow> Inl p | Inr p \<Rightarrow> Inr (s + p)))"

text \<open>Modelled from the spec: the scan for the best anchor among the candidates \<open>cs\<close>;
  a later candidate replaces the best so far only if it aligns strictly better, so that
  ties go to the smaller position.\<close>

fun bestAnchor ::
  "bytes \<Rightarrow> bytes \<Rightarrow> int \<Rightarrow> int \<Rightarrow> int \<Rightarrow> int \<Rightarrow> (int \<times> int) list \<Rightarrow> int \<times> int \<Rightarrow> int \<Rightarrow>
     panic + (int \<times> int)" where
  "bestAnchor a b ai aj bi bj [] best score = Inr best"
| "bestAnchor a b ai aj bi bj (c # cs) best score =
     (case alignment a b ai aj bi bj c of
        Inl p \<Rightarrow> Inl p
      | Inr sc \<Rightarrow>
          if score < sc then bestAnchor a b ai aj bi bj cs c sc
          else bestAnchor a b ai aj bi bj cs best score)"

text \<open>Modelled from the spec: the candidates, the midpoint of the longer side paired
  with every position of the other side, without the two corners of the window.\<close>

definition candidates :: "int \<Rightarrow> int \<Rightarrow> int \<Rightarrow> int \<Rightarrow> (int \<times> int) list" where
  "candidates ai aj bi bj =
     (if bj - bi \<le> aj - ai
      then (let x = ai + (aj - ai) div 2 in map (\<lambda>y. (x, y)) [(if x = ai then bi + 1 else bi)..bj])
      else (let y = bi + (bj - bi) div 2 in map (\<lambda>x. (x, y)) [(if y = bi then ai + 1 else ai)..aj]))"

text \<open>Modelled from the spec: the anchor of a window with both sides non-empty. The
  scan starts from the corner \<open>(ai, bj)\<close> with an alignment below every real one.\<close>

definition anchor :: "bytes \<Rightarrow> bytes \<Rightarrow> int \<Rightarrow> int \<Rightarrow> int \<Rightarrow> int \<Rightarrow> panic + (int \<times> int)" where
  "anchor a b ai aj bi bj = bestAnchor a b ai aj bi bj (candidates ai aj bi bj) (ai, bj) (- 1)"

text \<open>
  Modelled from the spec: steps 1 to 4 of the engine on the window \<open>[ai, aj) \<times> [bi, bj)\<close>:
  trim the common prefix, trim the common suffix of what remains, emit at most one diff if
  a side of the remaining window is empty, otherwise recurse on the two windows flanking
  the anchor and concatenate.
\<close>

function lcsWindow :: "bytes \<Rightarrow> bytes \<Rightarrow> int \<Rightarrow> int \<Rightarrow> int \<Rightarrow> int \<Rightarrow> panic + Diff list" where
  "lcsWindow a b ai aj bi bj =
     (case commonPrefixLen a b ai aj bi bj of
        Inl p \<Rightarrow> Inl p
      | Inr pre \<Rightarrow>
          (case commonSuffixLen a b (ai + pre) aj (bi + pre) bj of
             Inl p \<Rightarrow> Inl p
           | Inr suf \<Rightarrow>
               if aj - suf \<le> ai + pre \<or> bj - suf \<le> bi + pre
               then (if aj - suf \<le> ai + pre \<and> bj - suf \<le> bi + pre then Inr []
                     else Inr [\<lparr>DiffStart = ai + pre, DiffEnd = aj - suf,
                                DiffReplStart = bi + pre, DiffReplEnd = bj - suf\<rparr>])
               else (case anchor a b (ai + pre) (aj - suf) (bi + pre) (bj - suf) of
                       Inl p \<Rightarrow> Inl p
                     | Inr c \<Rightarrow>
                         (case lcsWindow a b (ai + pre) (fst c) (bi + pre) (snd c) of
                            Inl p \<Rightarrow> Inl p
                          | Inr left \<Rightarrow>
                              (case lcsWindow a b (fst c) (aj - suf) (snd c) (bj - suf) of
                                 Inl p \<Rightarrow> Inl p
                               | Inr right \<Rightarrow> Inr (left @ right))))))"
  by pat_completeness auto
termination
proof -
  have loopP: "i \<le> r" if "prefixLoop a b n i = Inr r" for a b n i r
    using that
  proof (induction a b n i rule: prefixLoop.induct)
    case (1 a b n i)
    show ?case
    proof (cases "i < n")
      case False
      with 1(2) show ?thesis by (subst (asm) prefixLoop.simps) simp
    next
      case True
      from 1(2) True obtain ax bv where ix: "index a i = Inr ax" "index b i = Inr bv"
        by (subst (asm) prefixLoop.simps) (auto split: sum.splits)
      show ?thesis
      proof (cases "ax = bv")
        case eq: True
        from 1(2) have "prefixLoop a b n (i + 1) = Inr r"
          by (subst (asm) prefixLoop.simps) (simp add: True ix eq)
        from 1(1) [OF True ix eq this] show ?thesis by simp
      next
        case ne: False
        from 1(2) show ?thesis
          by (subst (asm) prefixLoop.simps) (simp add: True ix ne)
      qed
    qed
  qed
  have loopS: "i \<le> r" if "suffixLoop a b n i = Inr r" for a b n i r
    using that
  proof (induction a b n i rule: suffixLoop.induct)
    case (1 a b n i)
    show ?case
    proof (cases "i < n")
      case False
      with 1(2) show ?thesis by (subst (asm) suffixLoop.simps) simp
    next
      case True
      from 1(2) True obtain ax bv where
        ix: "index a (int (length a) - 1 - i) = Inr ax" "index b (int (length b) - 1 - i) = Inr bv"
        by (subst (asm) suffixLoop.simps) (auto split: sum.splits)
      show ?thesis
      proof (cases "ax = bv")
        case eq: True
        from 1(2) have "suffixLoop a b n (i + 1) = Inr r"
          by (subst (asm) suffixLoop.simps) (simp add: True ix eq)
        from 1(1) [OF True ix eq this] show ?thesis by simp
      next
        case ne: False
        from 1(2) show ?thesis
          by (subst (asm) suffixLoop.simps) (simp add: True ix ne)
      qed
    qed
  qed
  have pre0: "0 \<le> r" if "commonPrefixLen a b ai aj bi bj = Inr r" for a b ai aj bi bj r
    using that loopP [of _ _ _ 0 r]
    by (auto simp: commonPrefixLen_def commonPrefixLenString_def split: sum.splits)
  have suf0: "0 \<le> r" if "commonSuffixLen a b ai aj bi bj = Inr r" for a b ai aj bi bj r
    using that loopS [of _ _ _ 0 r]
    by (auto simp: commonSuffixLen_def commonSuffixLenString_def split: sum.splits)
  have best: "r = c0 \<or> r \<in> set cs"
    if "bestAnchor a b ai aj bi bj cs c0 sc = Inr r" for a b ai aj bi bj cs c0 sc r
    using that
  proof (induction cs arbitrary: c0 sc)
    case Nil
    then show ?case by simp
  next
    case (Cons c cs)
    from Cons.prems obtain v where v: "alignment a b ai aj bi bj c = Inr v"
      by (auto split: sum.splits)
    show ?case
    proof (cases "sc < v")
      case True
      with Cons.prems v have "bestAnchor a b ai aj bi bj cs c v = Inr r" by simp
      from Cons.IH [OF this] show ?thesis by auto
    next
      case False
      with Cons.prems v have "bestAnchor a b ai aj bi bj cs c0 sc = Inr r" by simp
      from Cons.IH [OF this] show ?thesis by auto
    qed
  qed
  have cand: "ai \<le> fst c \<and> fst c \<le> aj \<and> bi \<le> snd c \<and> snd c \<le> bj \<and> c \<noteq> (ai, bi) \<and> c \<noteq> (aj, bj)"
    if "c \<in> set (candidates ai aj bi bj)" "ai < aj" "bi < bj" for ai aj bi bj c
  proof (cases "bj - bi \<le> aj - ai")
    case True
    define x where "x = ai + (aj - ai) div 2"
    have x: "ai \<le> x" "x < aj" using that(2) by (simp_all add: x_def)
    from that(1) True obtain y where c: "c = (x, y)" "(if x = ai then bi + 1 else bi) \<le> y" "y \<le> bj"
      by (auto simp: candidates_def Let_def x_def)
    show ?thesis using c x by (auto split: if_splits)
  next
    case False
    define y where "y = bi + (bj - bi) div 2"
    have y: "bi \<le> y" "y < bj" using that(3) by (simp_all add: y_def)
    from that(1) False obtain x where c: "c = (x, y)" "(if y = bi then ai + 1 else ai) \<le> x" "x \<le> aj"
      by (auto simp: candidates_def Let_def y_def)
    show ?thesis using c y by (auto split: if_splits)
  qed
  have anch: "ai \<le> fst c \<and> fst c \<le> aj \<and> bi \<le> snd c \<and> snd c \<le> bj \<and> c \<noteq> (ai, bi) \<and> c \<noteq> (aj, bj)"
    if "anchor a b ai aj bi bj = Inr c" "ai < aj" "bi < bj" for a b ai aj bi bj c
  proof -
    from best [OF that(1) [unfolded anchor_def]]
    have "c = (ai, bj) \<or> c \<in> set (candidates ai aj bi bj)" .
    then show ?thesis
    proof
      assume "c = (ai, bj)"
      with that(2,3) show ?thesis by simp
    next
      assume "c \<in> set (candidates ai aj bi bj)"
      from cand [OF this that(2,3)] show ?thesis .
    qed
  qed
  show ?thesis
  proof (relation "measure (\<lambda>(a, b, ai, aj, bi, bj). nat ((aj - ai) + (bj - bi)))", goal_cases)
    case 1
    show ?case by simp
  next
    case (2 a b ai aj bi bj pre suf c)
    from 2(3) have w: "ai + pre < aj - suf" "bi + pre < bj - suf" by simp_all
    from anch [OF 2(4) w] pre0 [OF 2(1)] suf0 [OF 2(2)] w show ?case
      by (cases c) auto
  next
    case (3 a b ai aj bi bj pre suf c left)
    from 3(3) have w: "ai + pre < aj - suf" "bi + pre < bj - suf" by simp_all
    from anch [OF 3(4) w] pre0 [OF 3(1)] suf0 [OF 3(2)] w show ?case
      by (cases c) auto
  qed
qed

declare lcsWindow.simps [simp del]

text \<open>
  Modelled from the spec: step 5 of the engine, which merges adjacent emitted diffs whose
  \<open>end = next.start\<close> and \<open>replEnd = next.replStart\<close> into one.
\<close>

fun mergeDiffs :: "Diff list \<Rightarrow> Diff list" where
  "mergeDiffs (d # e # ds) =
     (if DiffEnd d = DiffStart e \<and> DiffReplEnd d = DiffReplStart e
      then mergeDiffs (d\<lparr>DiffEnd := DiffEnd e, DiffReplEnd := DiffReplEnd e\<rparr> # ds)
      else d # mergeDiffs (e # ds))"
| "mergeDiffs ds = ds"

text \<open>Modelled from the spec: \<^verbatim>\<open>lcs.DiffText\<close>, the engine on the whole of both texts
  followed by the merge.\<close>

definition DiffText :: "bytes \<Rightarrow> bytes \<Rightarrow> panic + Diff list" where
  "DiffText a b =
     (case lcsWindow a b 0 (int (length a)) 0 (int (length b)) of
        Inl p \<Rightarrow> Inl p
      | Inr ds \<Rightarrow> Inr (mergeDiffs ds))"

subsection \<open>Binary\<close>

text \<open>
  The loop of \<^verbatim>\<open>diffASCII\<close>:
  \<^verbatim>\<open>res[i] = Edit[T]{d.Start, d.End, after[d.ReplStart:d.ReplEnd]}\<close>.
\<close>

fun diffsToEdits :: "bytes \<Rightarrow> Diff list \<Rightarrow> panic + Edit list" where
  "diffsToEdits afterText [] = Inr []"
| "diffsToEdits afterText (d # ds) =
     (case slice afterText (DiffReplStart d) (DiffReplEnd d) of
        Inl p \<Rightarrow> Inl p
      | Inr new \<Rightarrow>
          (case diffsToEdits afterText ds of
             Inl p \<Rightarrow> Inl p
           | Inr es \<Rightarrow> Inr (\<lparr>Start = DiffStart d, End = DiffEnd d, New = new\<rparr> # es)))"

definition diffASCII :: "bytes \<Rightarrow> bytes \<Rightarrow> panic + Edit list" where
  "diffASCII beforeText afterText =
     (case DiffText beforeText afterText of
        Inl p \<Rightarrow> Inl p
      | Inr diffs \<Rightarrow> diffsToEdits afterText diffs)"

text \<open>\<^verbatim>\<open>isASCII\<close>: no byte is \<^verbatim>\<open>utf8.RuneSelf\<close> (0x80) or more.\<close>

fun isASCII :: "bytes \<Rightarrow> bool" where
  "isASCII [] = True"
| "isASCII (c # cs) = (if (of_char c :: nat) \<ge> 128 then False else isASCII cs)"

text \<open>
  \<^verbatim>\<open>diffText\<close>, with \<^verbatim>\<open>alg.Compare(before, after) == 0\<close> as equality of the texts. The
  path through \<^verbatim>\<open>diffRunes\<close> decodes UTF-8 and calls \<^verbatim>\<open>lcs.DiffRunes\<close>; it is the
  parameter \<open>runesPath\<close>, which \<^verbatim>\<open>Binary\<close> never reaches.
\<close>

definition diffText ::
  "(bytes \<Rightarrow> bytes \<Rightarrow> panic + Edit list) \<Rightarrow> bytes \<Rightarrow> bytes \<Rightarrow> bool \<Rightarrow> panic + Edit list" where
  "diffText runesPath beforeText afterText binary =
     (if beforeText = afterText then Inr []
      else if binary \<or> (isASCII beforeText \<and> isASCII afterText) then diffASCII beforeText afterText
      else runesPath beforeText afterText)"

definition Binary :: "(bytes \<Rightarrow> bytes \<Rightarrow> panic + Edit list) \<Rightarrow> bytes \<Rightarrow> bytes \<Rightarrow> panic + Edit list" where
  "Binary runesPath beforeText afterText = diffText runesPath beforeText afterText True"

subsection \<open>What a list of diffs has to satisfy\<close>

text \<open>
  \<open>covers a b ai aj bi bj ds\<close>: within the window the diffs \<open>ds\<close> are ordered, lie inside
  it, and what lies between them (and before the first and after the last) is the same
  in \<open>a\<close> and in \<open>b\<close>.
\<close>

fun covers :: "bytes \<Rightarrow> bytes \<Rightarrow> int \<Rightarrow> int \<Rightarrow> int \<Rightarrow> int \<Rightarrow> Diff list \<Rightarrow> bool" where
  "covers a b ai aj bi bj [] = (ai \<le> aj \<and> aj - ai = bj - bi \<and> seg a ai aj = seg b bi bj)"
| "covers a b ai aj bi bj (d # ds) =
     (ai \<le> DiffStart d \<and> DiffStart d \<le> DiffEnd d \<and> DiffEnd d \<le> aj \<and>
      bi \<le> DiffReplStart d \<and> DiffReplStart d \<le> DiffReplEnd d \<and> DiffReplEnd d \<le> bj \<and>
      DiffStart d - ai = DiffReplStart d - bi \<and>
      seg a ai (DiffStart d) = seg b bi (DiffReplStart d) \<and>
      covers a b (DiffEnd d) aj (DiffReplEnd d) bj ds)"

section \<open>Sorting\<close>

lemma Less_key: "Less a b \<longleftrightarrow> key a < key b"
  by (auto simp: Less_def key_def Let_def less_prod_def)

lemma Less64_Less:
  assumes "- (2 ^ 62) \<le> Start a" "Start a < 2 ^ 62" "- (2 ^ 62) \<le> Start b" "Start b < 2 ^ 62"
  shows "Less64 a b = Less a b"
proof -
  have "- (2 ^ 63) \<le> Start a - Start b" "Start a - Start b < 2 ^ 63"
    using assms by simp_all
  then have "wrap64 (Start a - Start b) = Start a - Start b"
    by (simp add: wrap64_def)
  then show ?thesis
    by (simp add: Less64_def Less_def)
qed

lemma IsSorted_sorted: "IsSorted es \<longleftrightarrow> sorted (map key es)"
proof (induction es rule: IsSorted.induct)
  case (3 x y zs)
  have "sorted (map key (x # y # zs)) \<longleftrightarrow> key x \<le> key y \<and> sorted (map key (y # zs))"
    by auto
  with 3 show ?case by (auto simp: Less_key not_less)
qed simp_all

lemma mset_sink: "mset (sink x ys) = add_mset x (mset ys)"
  by (induction ys) auto

lemma set_sink: "set (sink x ys) = insert x (set ys)"
  by (induction ys) auto

lemma sorted_sink:
  "sorted (rev (map key ys)) \<Longrightarrow> sorted (rev (map key (sink x ys)))"
proof (induction ys)
  case Nil
  then show ?case by simp
next
  case (Cons y ys)
  then show ?case
    by (auto simp: sorted_append Less_key set_sink not_less)
qed

lemma filter_sink:
  "sorted (rev (map key ys)) \<Longrightarrow>
   filter (\<lambda>e. key e = k) (sink x ys) = (if key x = k then x # filter (\<lambda>e. key e = k) ys
                                        else filter (\<lambda>e. key e = k) ys)"
proof (induction ys)
  case Nil
  then show ?case by simp
next
  case (Cons y ys)
  then have sorted_ys: "sorted (rev (map key ys))" and le: "\<forall>z\<in>set ys. key z \<le> key y"
    by (auto simp: sorted_append)
  show ?case
  proof (cases "Less x y")
    case True
    then have "key x < key y" by (simp add: Less_key)
    with Cons.IH [OF sorted_ys] show ?thesis by auto
  next
    case False
    then show ?thesis by simp
  qed
qed

lemma sinkAll_snoc: "sinkAll (es @ [x]) = sink x (sinkAll es)"
  by (simp add: sinkAll_def)

lemma mset_sinkAll: "mset (sinkAll es) = mset es"
  by (induction es rule: rev_induct) (simp_all add: sinkAll_snoc mset_sink, simp add: sinkAll_def)

lemma sorted_sinkAll: "sorted (rev (map key (sinkAll es)))"
proof (induction es rule: rev_induct)
  case Nil
  then show ?case by (simp add: sinkAll_def)
next
  case (snoc x xs)
  then show ?case by (simp add: sinkAll_snoc sorted_sink)
qed

lemma filter_sinkAll:
  "filter (\<lambda>e. key e = k) (sinkAll es) = rev (filter (\<lambda>e. key e = k) es)"
proof (induction es rule: rev_induct)
  case Nil
  then show ?case by (simp add: sinkAll_def)
next
  case (snoc x xs)
  then show ?case by (simp add: sinkAll_snoc filter_sink [OF sorted_sinkAll])
qed

lemma SortEdits_sinkAll: "SortEdits es = rev (sinkAll es)"
  by (simp add: SortEdits_def sinkAll_def)

lemma mset_SortEdits: "mset (SortEdits es) = mset es"
  by (simp add: SortEdits_sinkAll mset_sinkAll)

lemma sorted_SortEdits: "sorted (map key (SortEdits es))"
  using sorted_sinkAll [of es] by (simp add: SortEdits_sinkAll rev_map)

lemma filter_SortEdits:
  "filter (\<lambda>e. key e = k) (SortEdits es) = filter (\<lambda>e. key e = k) es"
  by (simp add: SortEdits_sinkAll filter_sinkAll flip: rev_filter)

lemma SortEdits_sort_key: "SortEdits es = sort_key key es"
proof (rule sym, rule properties_for_sort_key)
  show "mset (SortEdits es) = mset es" by (rule mset_SortEdits)
  show "sorted (map key (SortEdits es))" by (rule sorted_SortEdits)
  fix k assume "k \<in> set (SortEdits es)"
  have "filter (\<lambda>e. key e = key k) (SortEdits es) = filter (\<lambda>e. key e = key k) es"
    by (rule filter_SortEdits)
  then show "filter (\<lambda>x. key k = key x) (SortEdits es) = filter (\<lambda>x. key k = key x) es"
    by (simp add: eq_commute)
qed

lemma SortEdits_id: "IsSorted es \<Longrightarrow> SortEdits es = es"
  by (simp add: SortEdits_sort_key IsSorted_sorted sort_key_id_if_sorted)

lemma IsSorted_SortEdits: "IsSorted (SortEdits es)"
  by (simp add: IsSorted_sorted sorted_SortEdits)

lemma length_SortEdits: "length (SortEdits es) = length es"
  using mset_SortEdits [of es] by (metis size_mset)

lemma set_SortEdits: "set (SortEdits es) = set es"
  using mset_SortEdits [of es] by (metis set_mset_mset)

section \<open>Validation\<close>

lemma prevEnd_Suc: "prevEnd le (e # es) (Suc i) = prevEnd (End e) es i"
  by (cases i) (simp_all add: prevEnd_def)

lemma okAt_0: "okAt L le (e # es) 0 = (inBounds L e \<and> le \<le> Start e)"
  by (simp add: okAt_def prevEnd_def)

lemma okAt_Suc: "okAt L le (e # es) (Suc i) = okAt L (End e) es i"
  by (simp add: okAt_def prevEnd_Suc)

lemma validateLoop_Inr:
  "validateLoop L es sz le = Inr s \<longleftrightarrow>
     (\<forall>i<length es. okAt L le es i) \<and> s = sz + (\<Sum>e\<leftarrow>es. int (length (New e)) + Start e - End e)"
proof (induction es arbitrary: sz le)
  case Nil
  then show ?case by auto
next
  case (Cons e es)
  show ?case
    by (simp add: Cons.IH All_less_Suc2 okAt_0 okAt_Suc inBounds_def) (auto)
qed

lemma validateLoop_OutOfBounds:
  "validateLoop L es sz le = Inl OutOfBounds \<longleftrightarrow>
     (\<exists>i<length es. \<not> inBounds L (es ! i) \<and> (\<forall>j<i. okAt L le es j))"
proof (induction es arbitrary: sz le)
  case Nil
  then show ?case by auto
next
  case (Cons e es)
  show ?case
    by (auto simp add: Cons.IH Ex_less_Suc2 All_less_Suc2 okAt_0 okAt_Suc inBounds_def)
qed

lemma validateLoop_Overlapping:
  "validateLoop L es sz le = Inl Overlapping \<longleftrightarrow>
     (\<exists>i<length es. inBounds L (es ! i) \<and> Start (es ! i) < prevEnd le es i \<and> (\<forall>j<i. okAt L le es j))"
proof (induction es arbitrary: sz le)
  case Nil
  then show ?case by auto
next
  case (Cons e es)
  show ?case
    by (simp add: Cons.IH Ex_less_Suc2 All_less_Suc2 okAt_0 okAt_Suc inBounds_def prevEnd_Suc) (auto simp: prevEnd_def)
qed

lemma okAt_offends: "i < length S \<Longrightarrow> (\<forall>j<i. okAt L 0 S j) \<Longrightarrow> okAt L 0 S i \<longleftrightarrow> \<not> offends L S i"
  by (cases i) (auto simp: okAt_def offends_def overlapsPrev_def prevEnd_def inBounds_def)

lemma okAt_offends_all: "i \<le> length S \<Longrightarrow> (\<forall>j<i. okAt L 0 S j) \<longleftrightarrow> (\<forall>j<i. \<not> offends L S j)"
proof (induction i)
  case 0
  then show ?case by simp
next
  case (Suc i)
  then show ?case using okAt_offends [of i S L] by (auto simp: less_Suc_eq)
qed

lemma Validate_sorted: "Validate L E = (case validateLoop L (SortEdits E) L 0 of Inl err \<Rightarrow> Inl err | Inr sz \<Rightarrow> Inr (SortEdits E, sz))"
  by (cases "IsSorted E") (simp_all add: Validate_def SortEdits_id Let_def split: sum.splits)


lemma ball_upt: "(\<forall>j\<in>{0..<i::nat}. P j) \<longleftrightarrow> (\<forall>j<i. P j)"
  by auto

lemma ex_prefix_offends:
  "(\<exists>i<length S. A i \<and> (\<forall>j<i. okAt L 0 S j)) \<longleftrightarrow>
   (\<exists>i<length S. A i \<and> (\<forall>j\<in>{0..<i}. \<not> offends L S j))"
proof (rule iff_exI)
  fix i
  show "(i < length S \<and> A i \<and> (\<forall>j<i. okAt L 0 S j)) \<longleftrightarrow>
        (i < length S \<and> A i \<and> (\<forall>j\<in>{0..<i}. \<not> offends L S j))"
  proof (cases "i < length S")
    case True
    then have "(\<forall>j<i. okAt L 0 S j) \<longleftrightarrow> (\<forall>j<i. \<not> offends L S j)"
      by (intro okAt_offends_all) simp
    then show ?thesis by (simp add: ball_upt)
  next
    case False
    then show ?thesis by simp
  qed
qed

lemma overlap_at: "inBounds L (S ! i) \<Longrightarrow> Start (S ! i) < prevEnd 0 S i \<longleftrightarrow> overlapsPrev S i"
  by (cases i) (simp_all add: overlapsPrev_def prevEnd_def inBounds_def)

lemma Validate_OutOfBounds_iff:
  "Validate L E = Inl OutOfBounds \<longleftrightarrow>
     (\<exists>i. firstOffender L (SortEdits E) i \<and> \<not> inBounds L (SortEdits E ! i))"
proof -
  have "Validate L E = Inl OutOfBounds \<longleftrightarrow> validateLoop L (SortEdits E) L 0 = Inl OutOfBounds"
    by (simp add: Validate_sorted split: sum.splits)
  also have "\<dots> \<longleftrightarrow> (\<exists>i<length (SortEdits E). \<not> inBounds L (SortEdits E ! i) \<and>
       (\<forall>j\<in>{0..<i}. \<not> offends L (SortEdits E) j))"
    by (simp only: validateLoop_OutOfBounds ex_prefix_offends)
  also have "\<dots> \<longleftrightarrow> (\<exists>i. firstOffender L (SortEdits E) i \<and> \<not> inBounds L (SortEdits E ! i))"
    by (rule iff_exI) (simp add: firstOffender_def offends_def, blast)
  finally show ?thesis .
qed

lemma Validate_Overlapping_iff:
  "Validate L E = Inl Overlapping \<longleftrightarrow>
     (\<exists>i. firstOffender L (SortEdits E) i \<and> inBounds L (SortEdits E ! i))"
proof -
  have "Validate L E = Inl Overlapping \<longleftrightarrow> validateLoop L (SortEdits E) L 0 = Inl Overlapping"
    by (simp add: Validate_sorted split: sum.splits)
  also have "\<dots> \<longleftrightarrow> (\<exists>i<length (SortEdits E). (inBounds L (SortEdits E ! i) \<and>
       Start (SortEdits E ! i) < prevEnd 0 (SortEdits E) i) \<and>
       (\<forall>j\<in>{0..<i}. \<not> offends L (SortEdits E) j))"
    using ex_prefix_offends [of "SortEdits E" "\<lambda>i. inBounds L (SortEdits E ! i) \<and>
       Start (SortEdits E ! i) < prevEnd 0 (SortEdits E) i" L]
    by (simp add: validateLoop_Overlapping conj_assoc)
  also have "\<dots> \<longleftrightarrow> (\<exists>i. firstOffender L (SortEdits E) i \<and> inBounds L (SortEdits E ! i))"
  proof (rule iff_exI)
    fix i
    show "(i < length (SortEdits E) \<and> (inBounds L (SortEdits E ! i) \<and>
       Start (SortEdits E ! i) < prevEnd 0 (SortEdits E) i) \<and>
       (\<forall>j\<in>{0..<i}. \<not> offends L (SortEdits E) j)) \<longleftrightarrow>
       (firstOffender L (SortEdits E) i \<and> inBounds L (SortEdits E ! i))"
      using overlap_at [of L "SortEdits E" i]
      by (simp add: firstOffender_def offends_def) blast
  qed
  finally show ?thesis .
qed

lemma Validate_Inr_iff:
  "Validate L E = Inr (S, sz) \<longleftrightarrow>
     S = SortEdits E \<and> sz = patchedSize L (SortEdits E) \<and>
     (\<forall>i\<in>{0..<length (SortEdits E)}. \<not> offends L (SortEdits E) i)"
proof -
  have "(\<forall>j<length (SortEdits E). okAt L 0 (SortEdits E) j) \<longleftrightarrow>
        (\<forall>j<length (SortEdits E). \<not> offends L (SortEdits E) j)"
    by (intro okAt_offends_all) simp
  then have "validateLoop L (SortEdits E) L 0 = Inr sz \<longleftrightarrow>
      (\<forall>i\<in>{0..<length (SortEdits E)}. \<not> offends L (SortEdits E) i) \<and> sz = patchedSize L (SortEdits E)"
    by (simp add: validateLoop_Inr patchedSize_def ball_upt)
  then show ?thesis
    by (cases "validateLoop L (SortEdits E) L 0") (auto simp: Validate_sorted)
qed

section \<open>SortEdits is a stable sort\<close>

lemma byStartEnd_key: "byStartEnd a b \<longleftrightarrow> key a \<le> key b"
  by (auto simp: byStartEnd_def key_def less_eq_prod_def)

lemma sorted_wrt_SortEdits: "sorted_wrt byStartEnd (SortEdits E)"
proof -
  have "sorted_wrt (\<lambda>a b. key a \<le> key b) (SortEdits E)"
    using sorted_SortEdits [of E] by (simp add: sorted_map)
  then show ?thesis
    by (simp add: byStartEnd_key [abs_def])
qed

lemma insertion_before_deletion:
  assumes "i < length (SortEdits E)" "j < length (SortEdits E)"
    and "Start (SortEdits E ! i) = Start (SortEdits E ! j)"
    and "End (SortEdits E ! i) = Start (SortEdits E ! i)"
    and "Start (SortEdits E ! j) < End (SortEdits E ! j)"
  shows "i < j"
proof (rule ccontr)
  assume "\<not> i < j"
  then consider "i = j" | "j < i" by linarith
  then show False
  proof cases
    case 1
    with assms show False by simp
  next
    case 2
    with assms(1) sorted_wrt_SortEdits [of E]
    have "byStartEnd (SortEdits E ! j) (SortEdits E ! i)"
      by (simp add: sorted_wrt_iff_nth_less)
    with assms show False by (simp add: byStartEnd_def)
  qed
qed

text \<open>
  Over the unbounded integers the insertion sort is a stable sort by (start, end):
  sorting is idempotent, the result is a permutation of the input in ascending
  (start, end) order, edits with the same start and end (so any two insertions at one
  offset) keep their relative order, and at an equal start an insertion stands before
  every deletion.
\<close>

lemma SortEdits_stable:
  "SortEdits (SortEdits E) = SortEdits E \<and>
   mset (SortEdits E) = mset E \<and>
   sorted_wrt byStartEnd (SortEdits E) \<and>
   (\<forall>s e. filter (\<lambda>x. Start x = s \<and> End x = e) (SortEdits E) = filter (\<lambda>x. Start x = s \<and> End x = e) E) \<and>
   (\<forall>i j. i < length (SortEdits E) \<and> j < length (SortEdits E) \<and>
      Start (SortEdits E ! i) = Start (SortEdits E ! j) \<and>
      End (SortEdits E ! i) = Start (SortEdits E ! i) \<and>
      Start (SortEdits E ! j) < End (SortEdits E ! j) \<longrightarrow> i < j)"
proof -
  have "SortEdits (SortEdits E) = SortEdits E"
    by (rule SortEdits_id) (rule IsSorted_SortEdits)
  moreover have "mset (SortEdits E) = mset E"
    by (rule mset_SortEdits)
  moreover have "sorted_wrt byStartEnd (SortEdits E)"
    by (rule sorted_wrt_SortEdits)
  moreover have "filter (\<lambda>x. Start x = s \<and> End x = e) (SortEdits E) = filter (\<lambda>x. Start x = s \<and> End x = e) E" for s e
    using filter_SortEdits [of "(s, e)" E] by (simp add: key_def)
  moreover have "i < length (SortEdits E) \<and> j < length (SortEdits E) \<and>
      Start (SortEdits E ! i) = Start (SortEdits E ! j) \<and>
      End (SortEdits E ! i) = Start (SortEdits E ! i) \<and>
      Start (SortEdits E ! j) < End (SortEdits E ! j) \<longrightarrow> i < j" for i j
    using insertion_before_deletion [of i E j] by blast
  ultimately show ?thesis by blast
qed

section \<open>Sorting and validation with 64-bit integers\<close>

subsection \<open>Where nothing wraps, the two models agree\<close>

lemma wrap64_representable: "representable x \<Longrightarrow> wrap64 x = x"
  by (simp add: wrap64_def representable_def)

lemma wrap64_add_left: "wrap64 (wrap64 x + y) = wrap64 (x + y)"
proof -
  have A: "wrap64 z = (z + 2 ^ 63) mod 2 ^ 64 - 2 ^ 63" for z
    by (rule wrap64_def)
  have "wrap64 x + y + 2 ^ 63 = (x + 2 ^ 63) mod 2 ^ 64 + y"
    by (simp only: A)
  then have "(wrap64 x + y + 2 ^ 63) mod 2 ^ 64 = ((x + 2 ^ 63) mod 2 ^ 64 + y) mod 2 ^ 64"
    by (rule arg_cong)
  also have "\<dots> = (x + 2 ^ 63 + y) mod 2 ^ 64"
    by (rule mod_add_left_eq)
  also have "x + 2 ^ 63 + y = x + y + 2 ^ 63"
    by (simp only: add.assoc add.commute [of "2 ^ 63" y])
  finally have "(wrap64 x + y + 2 ^ 63) mod 2 ^ 64 = (x + y + 2 ^ 63) mod 2 ^ 64" .
  then show ?thesis
    by (simp only: A [of "wrap64 x + y"] A [of "x + y"])
qed

lemma Less64_comparable: "representable (Start a - Start b) \<Longrightarrow> Less64 a b = Less a b"
  by (simp add: Less64_def Less_def wrap64_representable)

lemma startsComparable_iff:
  "startsComparable E \<longleftrightarrow> (\<forall>a\<in>set E. \<forall>b\<in>set E. representable (Start a - Start b))"
  by (simp add: startsComparable_def list_all_iff)

lemma IsSorted64_IsSorted:
  "(\<And>a b. a \<in> set E \<Longrightarrow> b \<in> set E \<Longrightarrow> Less64 a b = Less a b) \<Longrightarrow> IsSorted64 E = IsSorted E"
  by (induction E rule: IsSorted.induct) simp_all

lemma sink64_sink:
  "\<forall>a\<in>insert x (set ys). \<forall>b\<in>insert x (set ys). Less64 a b = Less a b \<Longrightarrow> sink64 x ys = sink x ys"
  by (induction ys) auto

lemma foldl_sink64:
  assumes "\<And>a b. a \<in> S \<Longrightarrow> b \<in> S \<Longrightarrow> Less64 a b = Less a b"
  shows "set acc \<union> set es \<subseteq> S \<Longrightarrow>
         foldl (\<lambda>acc x. sink64 x acc) acc es = foldl (\<lambda>acc x. sink x acc) acc es"
proof (induction es arbitrary: acc)
  case Nil
  show ?case by simp
next
  case (Cons x es)
  have "\<forall>a\<in>insert x (set acc). \<forall>b\<in>insert x (set acc). Less64 a b = Less a b"
    using Cons.prems assms by auto
  then have s: "sink64 x acc = sink x acc"
    by (rule sink64_sink)
  have "set (sink x acc) \<union> set es \<subseteq> S"
    using Cons.prems by (auto simp: set_sink)
  from Cons.IH [OF this] s show ?case by simp
qed

lemma SortEdits64_SortEdits:
  assumes "startsComparable E"
  shows "SortEdits64 E = SortEdits E"
proof -
  have "Less64 a b = Less a b" if "a \<in> set E" "b \<in> set E" for a b
    using assms that by (intro Less64_comparable) (simp add: startsComparable_iff)
  from foldl_sink64 [of "set E" "[]" E, OF this] show ?thesis
    by (simp add: SortEdits64_def SortEdits_def)
qed

lemma IsSorted64_comparable:
  assumes "startsComparable E"
  shows "IsSorted64 E = IsSorted E"
  using assms by (intro IsSorted64_IsSorted Less64_comparable) (simp add: startsComparable_iff)

text \<open>On such a list the code sorts by (start, end), stably.\<close>

lemma SortEdits64_comparable:
  "startsComparable E \<Longrightarrow> SortEdits64 E = sort_key key E"
  by (simp add: SortEdits64_SortEdits SortEdits_sort_key)

lemma validateLoop_shift:
  "validateLoop L es sz le = (case validateLoop L es 0 le of Inl e \<Rightarrow> Inl e | Inr s \<Rightarrow> Inr (sz + s))"
proof (cases "validateLoop L es 0 le")
  case (Inl e)
  then have "validateLoop L es sz le = Inl e"
    by (cases e) (simp_all add: validateLoop_OutOfBounds validateLoop_Overlapping)
  with Inl show ?thesis by simp
next
  case (Inr s)
  then have "validateLoop L es sz le = Inr (sz + s)"
    by (simp add: validateLoop_Inr)
  with Inr show ?thesis by simp
qed

lemma validateLoop64_validateLoop:
  "validateLoop64 L es sz le =
     (case validateLoop L es sz le of
        Inl e \<Rightarrow> Inl e
      | Inr s \<Rightarrow> Inr (if es = [] then s else wrap64 s))"
proof (induction es arbitrary: sz le)
  case Nil
  show ?case by simp
next
  case (Cons e es)
  define t where "t = sz + int (length (New e)) + Start e - End e"
  show ?case
  proof (cases "validateLoop L es 0 (End e)")
    case (Inl err)
    then have "validateLoop L es (wrap64 t) (End e) = Inl err" "validateLoop L es t (End e) = Inl err"
      by (simp_all add: validateLoop_shift [of L es "wrap64 t"] validateLoop_shift [of L es t])
    then show ?thesis
      by (simp add: Cons.IH t_def)
  next
    case (Inr s)
    then have a: "validateLoop L es (wrap64 t) (End e) = Inr (wrap64 t + s)"
      and b: "validateLoop L es t (End e) = Inr (t + s)"
      by (simp_all add: validateLoop_shift [of L es "wrap64 t"] validateLoop_shift [of L es t])
    have "es = [] \<Longrightarrow> s = 0" using Inr by simp
    then have "(if es = [] then wrap64 t + s else wrap64 (wrap64 t + s)) = wrap64 (t + s)"
      by (simp add: wrap64_add_left)
    then have "validateLoop64 L es (wrap64 t) (End e) = Inr (wrap64 (t + s))"
      by (simp add: Cons.IH a)
    then show ?thesis
      using b by (simp add: t_def)
  qed
qed

lemma Validate64_Validate:
  assumes "startsComparable E"
  shows "Validate64 L E =
           (case Validate L E of
              Inl err \<Rightarrow> Inl err
            | Inr (S, sz) \<Rightarrow> Inr (S, if E = [] then sz else wrap64 sz))"
proof -
  have n: "SortEdits E = [] \<longleftrightarrow> E = []"
    using length_SortEdits [of E] by (metis length_0_conv)
  have "(if \<not> IsSorted64 E then SortEdits64 E else E) = SortEdits E"
    by (simp add: IsSorted64_comparable [OF assms] SortEdits64_SortEdits [OF assms] SortEdits_id)
  then have V64: "Validate64 L E =
      (case validateLoop64 L (SortEdits E) L 0 of Inl err \<Rightarrow> Inl err | Inr sz \<Rightarrow> Inr (SortEdits E, sz))"
    by (simp add: Validate64_def Let_def)
  show ?thesis
    by (cases "validateLoop L (SortEdits E) L 0")
       (simp_all add: V64 Validate_sorted validateLoop64_validateLoop n)
qed

text \<open>
  For edits that pass validation nothing wraps at all, as long as the size fits: what
  is proved of \<open>Validate\<close> and \<open>validate\<close> for such edits holds of the code.
\<close>

lemma Validate64_of_valid:
  assumes "Validate L E = Inr (S, sz)" "representable L" "representable sz"
  shows "Validate64 L E = Inr (S, sz)"
proof -
  from assms(1) have S: "S = SortEdits E"
    and ok: "\<forall>i\<in>{0..<length (SortEdits E)}. \<not> offends L (SortEdits E) i"
    by (simp_all add: Validate_Inr_iff)
  have b: "0 \<le> Start e \<and> Start e \<le> L" if "e \<in> set E" for e
  proof -
    from that have "e \<in> set (SortEdits E)" by (simp add: set_SortEdits)
    then obtain i where "i < length (SortEdits E)" "SortEdits E ! i = e"
      by (auto simp: in_set_conv_nth)
    with ok have "\<not> offends L (SortEdits E) i" "SortEdits E ! i = e" by simp_all
    then show ?thesis by (simp add: offends_def inBounds_def)
  qed
  have "representable (Start a - Start b)" if "a \<in> set E" "b \<in> set E" for a b
    using b [OF that(1)] b [OF that(2)] assms(2) by (simp add: representable_def)
  then have "startsComparable E" by (simp add: startsComparable_iff)
  from Validate64_Validate [OF this, of L] assms(1,3) show ?thesis
    by (simp add: wrap64_representable)
qed

subsection \<open>Validation decides by the first offending edit\<close>

lemma Validate64_Inl:
  "startsComparable E \<Longrightarrow> Validate64 L E = Inl err \<longleftrightarrow> Validate L E = Inl err"
  by (simp add: Validate64_Validate split: sum.splits)

lemma Validate64_Inr:
  "startsComparable E \<Longrightarrow>
   Validate64 L E = Inr (S, sz64) \<longleftrightarrow>
     (\<exists>sz. Validate L E = Inr (S, sz) \<and> sz64 = (if E = [] then sz else wrap64 sz))"
  by (auto simp add: Validate64_Validate split: sum.splits)

text \<open>
  Claim C3, as the code has it, for the edit lists on which the subtraction of two
  starts does not overflow. The edits are checked one after the other in sorted order
  and the first edit that offends decides the error: validation fails with the
  out-of-bounds error exactly when the first offending edit of the sorted list violates
  \<open>0 \<le> start \<le> end \<le> L\<close>, and with the overlapping error exactly when the first
  offending edit is in bounds and starts before the end of the edit before it. It
  succeeds exactly when no edit of the sorted list offends, and then returns the sorted
  list, with the size \<open>L + \<Sum>(len(new) + start - end)\<close> whenever that number is an
  \<^verbatim>\<open>int\<close>.
\<close>

theorem Validate64_first_offender:
  "startsComparable E \<Longrightarrow>
   (Validate64 L E = Inl OutOfBounds \<longleftrightarrow>
      (\<exists>i. firstOffender L (sort_key key E) i \<and> \<not> inBounds L (sort_key key E ! i))) \<and>
   (Validate64 L E = Inl Overlapping \<longleftrightarrow>
      (\<exists>i. firstOffender L (sort_key key E) i \<and> inBounds L (sort_key key E ! i))) \<and>
   ((\<exists>sz. Validate64 L E = Inr (sort_key key E, sz)) \<longleftrightarrow>
      (\<forall>i\<in>{0..<length E}. \<not> offends L (sort_key key E) i)) \<and>
   (\<forall>S sz. Validate64 L E = Inr (S, sz) \<longrightarrow>
      S = sort_key key E \<and> (representable (patchedSize L S) \<longrightarrow> sz = patchedSize L S))"
proof -
  assume c: "startsComparable E"
  have S: "sort_key key E = SortEdits E" by (simp add: SortEdits_sort_key)
  have l: "length E = length (SortEdits E)" by (simp add: length_SortEdits)
  have 1: "Validate64 L E = Inl OutOfBounds \<longleftrightarrow>
      (\<exists>i. firstOffender L (sort_key key E) i \<and> \<not> inBounds L (sort_key key E ! i))"
    by (simp only: Validate64_Inl [OF c] Validate_OutOfBounds_iff S)
  have 2: "Validate64 L E = Inl Overlapping \<longleftrightarrow>
      (\<exists>i. firstOffender L (sort_key key E) i \<and> inBounds L (sort_key key E ! i))"
    by (simp only: Validate64_Inl [OF c] Validate_Overlapping_iff S)
  have 3: "(\<exists>sz. Validate64 L E = Inr (sort_key key E, sz)) \<longleftrightarrow>
      (\<forall>i\<in>{0..<length E}. \<not> offends L (sort_key key E) i)"
    by (simp only: Validate64_Inr [OF c] Validate_Inr_iff S l) auto
  have 4: "S' = sort_key key E \<and> (representable (patchedSize L S') \<longrightarrow> sz = patchedSize L S')"
    if "Validate64 L E = Inr (S', sz)" for S' sz
  proof -
    from that obtain sz0 where v: "Validate L E = Inr (S', sz0)" "sz = (if E = [] then sz0 else wrap64 sz0)"
      by (auto simp: Validate64_Inr [OF c])
    from v(1) have "S' = SortEdits E" "sz0 = patchedSize L S'"
      by (simp_all add: Validate_Inr_iff)
    with v(2) show ?thesis
      by (simp add: S wrap64_representable)
  qed
  from 1 2 3 4 show ?thesis by blast
qed

text \<open>Two runs of the theorem: an overlap that hides a later out-of-bounds edit, and
  an unsorted valid list.\<close>

theorem Validate64_first_offender_witness:
  "startsComparable [\<lparr>Start = 0, End = 5, New = ''ab''\<rparr>, \<lparr>Start = 3, End = 4, New = []\<rparr>,
                     \<lparr>Start = 11, End = 12, New = []\<rparr>] \<and>
   Validate64 10 [\<lparr>Start = 0, End = 5, New = ''ab''\<rparr>, \<lparr>Start = 3, End = 4, New = []\<rparr>,
                  \<lparr>Start = 11, End = 12, New = []\<rparr>] = Inl Overlapping \<and>
   startsComparable [\<lparr>Start = 6, End = 7, New = ''r''\<rparr>, \<lparr>Start = 1, End = 3, New = ''u''\<rparr>] \<and>
   Validate64 8 [\<lparr>Start = 6, End = 7, New = ''r''\<rparr>, \<lparr>Start = 1, End = 3, New = ''u''\<rparr>] =
     Inr ([\<lparr>Start = 1, End = 3, New = ''u''\<rparr>, \<lparr>Start = 6, End = 7, New = ''r''\<rparr>], 7)"
proof -
  let ?E = "[\<lparr>Start = 0, End = 5, New = ''ab''\<rparr>, \<lparr>Start = 3, End = 4, New = []\<rparr>,
             \<lparr>Start = 11, End = 12, New = []\<rparr>]"
  let ?F = "[\<lparr>Start = 6, End = 7, New = ''r''\<rparr>, \<lparr>Start = 1, End = 3, New = ''u''\<rparr>]"
  let ?G = "[\<lparr>Start = 1, End = 3, New = ''u''\<rparr>, \<lparr>Start = 6, End = 7, New = ''r''\<rparr>]"
  have cE: "startsComparable ?E" and cF: "startsComparable ?F"
    by (simp_all add: startsComparable_def representable_def)
  have "SortEdits ?E = ?E"
    by (simp add: SortEdits_def Less_def)
  then have E: "sort_key key ?E = ?E"
    by (simp only: SortEdits_sort_key)
  have "firstOffender 10 (sort_key key ?E) 1 \<and> inBounds 10 (sort_key key ?E ! 1)"
    by (simp only: E) (simp add: firstOffender_def offends_def overlapsPrev_def inBounds_def)
  then have "\<exists>i. firstOffender 10 (sort_key key ?E) i \<and> inBounds 10 (sort_key key ?E ! i)" ..
  with Validate64_first_offender [OF cE, of 10] have 1: "Validate64 10 ?E = Inl Overlapping"
    by blast
  have "SortEdits ?F = ?G"
    by (simp add: SortEdits_def Less_def)
  then have F: "sort_key key ?F = ?G"
    by (simp only: SortEdits_sort_key)
  have "\<forall>i\<in>{0..<length ?F}. \<not> offends 8 (sort_key key ?F) i"
    by (simp only: F) (simp add: ball_upt All_less_Suc offends_def overlapsPrev_def inBounds_def)
  with Validate64_first_offender [OF cF, of 8]
  obtain sz where v: "Validate64 8 ?F = Inr (sort_key key ?F, sz)"
    by blast
  have "representable (patchedSize 8 (sort_key key ?F))" "patchedSize 8 (sort_key key ?F) = 7"
    by (simp_all only: F) (simp_all add: patchedSize_def representable_def)
  with Validate64_first_offender [OF cF, of 8] v have "sz = 7"
    by auto
  with v F have 2: "Validate64 8 ?F = Inr (?G, 7)" by (simp only:)
  from cE 1 cF 2 show ?thesis by blast
qed

text \<open>
  The claim as written ("out-of-bounds exactly when some edit violates the bounds")
  fails: here the third edit is out of bounds, and the error is the overlapping one,
  raised at the second edit.
\<close>

theorem Validate_exactly_when_counterexample:
  "Validate64 10 [\<lparr>Start = 0, End = 5, New = []\<rparr>, \<lparr>Start = 3, End = 4, New = []\<rparr>,
                  \<lparr>Start = 11, End = 12, New = []\<rparr>] = Inl Overlapping \<and>
   \<not> inBounds 10 \<lparr>Start = 11, End = 12, New = []\<rparr>"
  by (simp add: Validate64_def Less64_def wrap64_def inBounds_def)

text \<open>
  What the theorem leaves out. In the first list the subtraction of \<^verbatim>\<open>Less\<close> overflows,
  \<^verbatim>\<open>sort.IsSorted\<close> takes the list for sorted, and the overlap is met before the edit
  that is out of bounds, which stands first in sorted order. In the second run the size
  \<open>L + 1\<close> is not an \<^verbatim>\<open>int\<close> and wraps around.
\<close>

lemma Validate64_overflow_runs:
  "Validate64 10 [\<lparr>Start = 5, End = 9, New = []\<rparr>, \<lparr>Start = 6, End = 7, New = []\<rparr>,
                  \<lparr>Start = - (2 ^ 63), End = - (2 ^ 63), New = []\<rparr>] = Inl Overlapping \<and>
   \<not> inBounds 10 \<lparr>Start = - (2 ^ 63), End = - (2 ^ 63), New = []\<rparr> \<and>
   Validate64 (2 ^ 63 - 1) [\<lparr>Start = 5, End = 5, New = ''b''\<rparr>] =
     Inr ([\<lparr>Start = 5, End = 5, New = ''b''\<rparr>], - (2 ^ 63)) \<and>
   patchedSize (2 ^ 63 - 1) [\<lparr>Start = 5, End = 5, New = ''b''\<rparr>] = 2 ^ 63"
  by (simp add: Validate64_def Less64_def wrap64_def inBounds_def patchedSize_def)

subsection \<open>Where the subtraction overflows\<close>

text \<open>
  Claim C8 fails on the code. \<^verbatim>\<open>Less\<close> compares two starts by the sign of their
  difference, and the difference of an \<^verbatim>\<open>int\<close> as small as \<open>- 2 ^ 63\<close> and a positive one
  wraps around. The sort then puts start 1 before start \<open>- 2 ^ 63\<close>: the result is not
  in ascending order. On the starts \<open>- 2 ^ 62\<close> and \<open>2 ^ 62\<close>, which differ by \<open>2 ^ 63\<close>,
  each of the two edits is less than the other, every run of the sort swaps them, and
  sorting twice gives another list than sorting once.
\<close>

theorem SortEdits64_overflow:
  "SortEdits64 [\<lparr>Start = - (2 ^ 63), End = 0, New = []\<rparr>, \<lparr>Start = 1, End = 1, New = []\<rparr>] =
     [\<lparr>Start = 1, End = 1, New = []\<rparr>, \<lparr>Start = - (2 ^ 63), End = 0, New = []\<rparr>] \<and>
   SortEdits64 [\<lparr>Start = - (2 ^ 62), End = 0, New = []\<rparr>, \<lparr>Start = 2 ^ 62, End = 2 ^ 62, New = []\<rparr>] =
     [\<lparr>Start = 2 ^ 62, End = 2 ^ 62, New = []\<rparr>, \<lparr>Start = - (2 ^ 62), End = 0, New = []\<rparr>] \<and>
   SortEdits64 (SortEdits64 [\<lparr>Start = - (2 ^ 62), End = 0, New = []\<rparr>,
                             \<lparr>Start = 2 ^ 62, End = 2 ^ 62, New = []\<rparr>]) =
     [\<lparr>Start = - (2 ^ 62), End = 0, New = []\<rparr>, \<lparr>Start = 2 ^ 62, End = 2 ^ 62, New = []\<rparr>]"
  by (simp add: SortEdits64_def Less64_def wrap64_def)

section \<open>Apply\<close>

lemma validate_Validate: "validate src edits = Validate (int (length src)) edits"
  by (simp add: validate_def Validate_def)

lemma applyLoop_valid:
  assumes "validateLoop (int (length src)) es sz le = Inr sz'" "0 \<le> le" "le \<le> int (length src)"
  shows "\<exists>out' le'. applyLoop src es out le = Inr (out', le') \<and> 0 \<le> le' \<and> le' \<le> int (length src) \<and>
           int (length out') - le' = int (length out) - le + (sz' - sz) \<and>
           out' @ drop (nat le') src = out @ splice src le es"
  using assms
proof (induction es arbitrary: out le sz)
  case Nil
  then show ?case by simp
next
  case (Cons e es)
  from Cons.prems have b: "0 \<le> Start e" "Start e \<le> End e" "End e \<le> int (length src)" "le \<le> Start e"
    and rest: "validateLoop (int (length src)) es (sz + int (length (New e)) + Start e - End e) (End e) = Inr sz'"
    by (auto split: if_splits)
  show ?case
  proof (cases "le < Start e")
    case True
    let ?between = "take (nat (Start e - le)) (drop (nat le) src)"
    have sl: "slice src le (Start e) = Inr ?between"
      using b Cons.prems by (simp add: slice_def)
    have len: "int (length ?between) = Start e - le"
      using b Cons.prems True by simp
    from Cons.IH [OF rest, of "out @ ?between @ New e"] b
    obtain out' le' where r: "applyLoop src es (out @ ?between @ New e) (End e) = Inr (out', le')"
      "0 \<le> le'" "le' \<le> int (length src)"
      "int (length out') - le' = int (length (out @ ?between @ New e)) - End e + (sz' - (sz + int (length (New e)) + Start e - End e))"
      "out' @ drop (nat le') src = (out @ ?between @ New e) @ splice src (End e) es"
      by force
    from r(4) len have "int (length out') - le' = int (length out) - le + (sz' - sz)"
      by simp
    with r True sl show ?thesis by simp
  next
    case False
    with b have eq: "Start e = le" by simp
    from Cons.IH [OF rest, of "out @ New e"] b
    obtain out' le' where r: "applyLoop src es (out @ New e) (End e) = Inr (out', le')"
      "0 \<le> le'" "le' \<le> int (length src)"
      "int (length out') - le' = int (length (out @ New e)) - End e + (sz' - (sz + int (length (New e)) + Start e - End e))"
      "out' @ drop (nat le') src = (out @ New e) @ splice src (End e) es"
      by force
    from r(4) eq have "int (length out') - le' = int (length out) - le + (sz' - sz)"
      by simp
    with r False eq show ?thesis by simp
  qed
qed

lemma applyValidated_valid:
  assumes "validateLoop (int (length src)) es (int (length src)) 0 = Inr sz"
  shows "applyValidated src es sz = Inr (splice src 0 es, None) \<and> int (length (splice src 0 es)) = sz"
proof -
  from applyLoop_valid [OF assms, of "[]"]
  obtain out' le' where r: "applyLoop src es [] 0 = Inr (out', le')" "0 \<le> le'" "le' \<le> int (length src)"
    "int (length out') - le' = sz - int (length src)"
    "out' @ drop (nat le') src = splice src 0 es"
    by auto
  have sl: "slice src le' (int (length src)) = Inr (drop (nat le') src)"
    using r(2,3) by (simp add: slice_def)
  have len: "int (length (out' @ drop (nat le') src)) = sz"
    using r(2,3,4) by simp
  then have "0 \<le> sz" by linarith
  with r sl len show ?thesis
    by (simp add: applyValidated_def)
qed

lemma Apply_valid:
  assumes "validate src E = Inr (E', sz)"
  shows "Apply src E = Inr (splice src 0 E', None) \<and> int (length (splice src 0 E')) = sz"
proof -
  from assms have "validateLoop (int (length src)) E' (int (length src)) 0 = Inr sz"
    by (auto simp: validate_def Let_def split: sum.splits if_splits)
  from applyValidated_valid [OF this] assms show ?thesis
    by (simp add: Apply_def)
qed

text \<open>
  Claim C2. When validation of the edits against the source succeeds, Apply returns
  without a panic (no slice out of range, no negative capacity, no "wrong size") with a
  nil error, and the length of the returned buffer is the size validation computed.
\<close>

theorem Apply_no_panic:
  "validate src E = Inr (E', sz) \<Longrightarrow>
     (\<exists>out. Apply src E = Inr (out, None) \<and> int (length out) = sz)"
  using Apply_valid by blast

theorem Apply_no_panic_witness:
  "validate ''blanket'' [\<lparr>Start = 6, End = 7, New = ''r''\<rparr>, \<lparr>Start = 1, End = 3, New = ''u''\<rparr>] =
     Inr ([\<lparr>Start = 1, End = 3, New = ''u''\<rparr>, \<lparr>Start = 6, End = 7, New = ''r''\<rparr>], 6) \<and>
   (\<exists>out. Apply ''blanket'' [\<lparr>Start = 6, End = 7, New = ''r''\<rparr>, \<lparr>Start = 1, End = 3, New = ''u''\<rparr>] =
      Inr (out, None) \<and> int (length out) = 6)"
proof -
  have v: "validate ''blanket'' [\<lparr>Start = 6, End = 7, New = ''r''\<rparr>, \<lparr>Start = 1, End = 3, New = ''u''\<rparr>] =
     Inr ([\<lparr>Start = 1, End = 3, New = ''u''\<rparr>, \<lparr>Start = 6, End = 7, New = ''r''\<rparr>], 6)"
    by (simp add: validate_def SortEdits_def Less_def)
  from v Apply_no_panic [OF v] show ?thesis by (rule conjI)
qed

text \<open>
  Claim C9. Apply is all-or-nothing. Either validation succeeds, and then the list it
  returns is the whole of \<open>E\<close>, stably sorted by (start, end), and Apply returns with a
  nil error the source in which the range of every edit of that list is replaced by its
  new text; or validation fails, and Apply returns the empty text with the validation
  error. No other outcome (a panic, a text patched with only some of the edits) exists.
\<close>

theorem Apply_all_or_nothing:
  "(\<exists>sz. validate src E = Inr (sort_key key E, sz) \<and>
         Apply src E = Inr (splice src 0 (sort_key key E), None)) \<or>
   (\<exists>err. validate src E = Inl err \<and> Apply src E = Inr ([], Some err))"
proof (cases "validate src E")
  case (Inl err)
  then show ?thesis by (simp add: Apply_def)
next
  case (Inr r)
  then obtain E' sz where v: "validate src E = Inr (E', sz)" by (cases r) simp
  then have "E' = sort_key key E"
    by (simp add: validate_Validate Validate_Inr_iff SortEdits_sort_key)
  with v Apply_valid [OF v] show ?thesis by blast
qed

section \<open>Validation and the caller's slice\<close>

lemma Validate_store_sorted:
  "IsSorted64 (h ! a) \<Longrightarrow>
   Validate_store h L a = (h, case validateLoop64 L (h ! a) L 0 of Inl err \<Rightarrow> Inl err | Inr sz \<Rightarrow> Inr (a, sz))"
  by (simp add: Validate_store_def)

lemma Validate_store_unsorted:
  "\<not> IsSorted64 (h ! a) \<Longrightarrow>
   Validate_store h L a = (h @ [SortEdits64 (h ! a)],
     case validateLoop64 L (SortEdits64 (h ! a)) L 0 of Inl err \<Rightarrow> Inl err | Inr sz \<Rightarrow> Inr (length h, sz))"
  by (simp add: Validate_store_def alloc_def SortEdits_store_def)

text \<open>No array that existed before the call is written to, whatever the edits are.\<close>

lemma Validate_store_frame:
  "b < length h \<Longrightarrow> fst (Validate_store h L a) ! b = h ! b"
  by (cases "IsSorted64 (h ! a)") (simp_all add: Validate_store_sorted Validate_store_unsorted nth_append)

lemma Validate_store_deref:
  "deref (fst (Validate_store h L a)) (snd (Validate_store h L a)) = Validate64 L (h ! a)"
  by (cases "IsSorted64 (h ! a)")
     (simp_all add: Validate_store_sorted Validate_store_unsorted Validate64_def deref_def split: sum.splits)

text \<open>
  Where the subtraction of two starts does not overflow, an unsorted list is copied and
  the copy is sorted by (start, end), and a sorted list is walked in place.
\<close>

lemma Validate_store_comparable:
  assumes "startsComparable (h ! a)"
  shows "(sorted (map key (h ! a)) \<longrightarrow> fst (Validate_store h L a) = h) \<and>
         (\<not> sorted (map key (h ! a)) \<longrightarrow> fst (Validate_store h L a) = h @ [sort_key key (h ! a)])"
  using assms
  by (simp add: Validate_store_sorted Validate_store_unsorted IsSorted64_comparable IsSorted_sorted
      SortEdits64_comparable)

text \<open>
  Claim C10 fails on the code. The second edit of this list has the least start, so the
  list is not sorted by (start, end). The difference of the two starts is not an
  \<^verbatim>\<open>int\<close>, \<^verbatim>\<open>Less\<close> sees a positive number, and \<^verbatim>\<open>sort.IsSorted\<close> takes the list for sorted:
  no copy is allocated, the store is the one before the call, and validation walks the
  caller's own slice, unsorted (it ends on the out-of-bounds error, at the second edit).
\<close>

theorem Validate_store_overflow_no_copy:
  "\<not> sorted (map key [\<lparr>Start = 5, End = 9, New = []\<rparr>, \<lparr>Start = - (2 ^ 63), End = - (2 ^ 63), New = []\<rparr>]) \<and>
   IsSorted64 [\<lparr>Start = 5, End = 9, New = []\<rparr>, \<lparr>Start = - (2 ^ 63), End = - (2 ^ 63), New = []\<rparr>] \<and>
   Validate_store [[\<lparr>Start = 5, End = 9, New = []\<rparr>, \<lparr>Start = - (2 ^ 63), End = - (2 ^ 63), New = []\<rparr>]] 10 0 =
     ([[\<lparr>Start = 5, End = 9, New = []\<rparr>, \<lparr>Start = - (2 ^ 63), End = - (2 ^ 63), New = []\<rparr>]], Inl OutOfBounds)"
  by (simp add: Validate_store_def Less64_def wrap64_def key_def less_eq_prod_def)

section \<open>Streaming application\<close>

lemma DiscardN_drop:
  "0 \<le> c \<Longrightarrow> c \<le> l \<Longrightarrow> l \<le> int (length src) \<Longrightarrow>
   DiscardN (drop (nat c) src) (l - c) = (drop (nat l) src, None)"
  by (auto simp: DiscardN_def CopyN_def nat_diff_distrib nat_le_iff add.commute)

lemma CopyN_drop:
  "0 \<le> l \<Longrightarrow> l < s \<Longrightarrow> s \<le> int (length src) \<Longrightarrow>
   CopyN dst (drop (nat l) src) (s - l) =
     (dst @ take (nat (s - l)) (drop (nat l) src), drop (nat s) src, s - l, None)"
  by (auto simp: CopyN_def nat_diff_distrib nat_le_iff add.commute)

lemma applyToLoop_valid:
  assumes "validateLoop (int (length src)) es sz le = Inr sz'"
    and "0 \<le> c" "c \<le> le" "le \<le> int (length src)"
  shows "\<exists>dst' c' le'. applyToLoop es dst (drop (nat c) src) c le w =
             Inr (dst', drop (nat c') src, c', le', w + int (length dst') - int (length dst)) \<and>
           0 \<le> c' \<and> c' \<le> le' \<and> le' \<le> int (length src) \<and>
           dst' @ drop (nat le') src = dst @ splice src le es"
  using assms
proof (induction es arbitrary: dst c le w sz)
  case Nil
  then show ?case by simp
next
  case (Cons e es)
  from Cons.prems have b: "0 \<le> Start e" "Start e \<le> End e" "End e \<le> int (length src)" "le \<le> Start e"
    and rest: "validateLoop (int (length src)) es (sz + int (length (New e)) + Start e - End e) (End e) = Inr sz'"
    by (auto split: if_splits)
  show ?case
  proof (cases "le < Start e")
    case True
    let ?between = "take (nat (Start e - le)) (drop (nat le) src)"
    have d: "DiscardN (drop (nat c) src) (le - c) = (drop (nat le) src, None)"
      using Cons.prems by (intro DiscardN_drop) auto
    have cp: "CopyN dst (drop (nat le) src) (Start e - le) = (dst @ ?between, drop (nat (Start e)) src, Start e - le, None)"
      using Cons.prems True b by (intro CopyN_drop) auto
    have len: "int (length ?between) = Start e - le"
      using b Cons.prems True by simp
    from Cons.IH [OF rest, of "Start e" "dst @ ?between @ New e" "w + (Start e - le) + int (length (New e))"] b
    obtain dst' c' le' where r:
      "applyToLoop es (dst @ ?between @ New e) (drop (nat (Start e)) src) (Start e) (End e)
          (w + (Start e - le) + int (length (New e))) =
        Inr (dst', drop (nat c') src, c', le',
             w + (Start e - le) + int (length (New e)) + int (length dst') - int (length (dst @ ?between @ New e)))"
      "0 \<le> c'" "c' \<le> le'" "le' \<le> int (length src)"
      "dst' @ drop (nat le') src = (dst @ ?between @ New e) @ splice src (End e) es"
      by force
    have w: "w + (Start e - le) + int (length (New e)) + int (length dst') - int (length (dst @ ?between @ New e))
          = w + int (length dst') - int (length dst)"
      using len by simp
    show ?thesis
      using True d cp r w by simp
  next
    case False
    with b have eq: "Start e = le" by simp
    from Cons.IH [OF rest, of c "dst @ New e" "w + int (length (New e))"] b Cons.prems eq
    obtain dst' c' le' where r:
      "applyToLoop es (dst @ New e) (drop (nat c) src) c (End e) (w + int (length (New e))) =
        Inr (dst', drop (nat c') src, c', le',
             w + int (length (New e)) + int (length dst') - int (length (dst @ New e)))"
      "0 \<le> c'" "c' \<le> le'" "le' \<le> int (length src)"
      "dst' @ drop (nat le') src = (dst @ New e) @ splice src (End e) es"
      by force
    show ?thesis
      using False eq r by simp
  qed
qed

lemma ApplyTo_valid:
  assumes "Validate (int (length src)) E = Inr (E', sz)"
  shows "ApplyTo [] src (int (length src)) E = (splice src 0 E', [], int (length (splice src 0 E')), None)"
proof -
  from assms have v: "validateLoop (int (length src)) E' (int (length src)) 0 = Inr sz"
    by (auto simp: Validate_def Let_def split: sum.splits if_splits)
  from applyToLoop_valid [OF v, of 0 "[]" 0]
  obtain dst' c' le' where r: "applyToLoop E' [] src 0 0 0 = Inr (dst', drop (nat c') src, c', le', int (length dst'))"
    "0 \<le> c'" "c' \<le> le'" "le' \<le> int (length src)" "dst' @ drop (nat le') src = splice src 0 E'"
    by auto
  have d: "DiscardN (drop (nat c') src) (le' - c') = (drop (nat le') src, None)"
    using r by (intro DiscardN_drop) auto
  have "int (length (splice src 0 E')) = int (length dst') + int (length (drop (nat le') src))"
    using r(5) [symmetric] by simp
  with assms r d show ?thesis
    by (simp add: ApplyTo_def)
qed

text \<open>
  Claim C6. For every source and edit list, ApplyTo run on a reader over the source
  (with the length of the source as \<^verbatim>\<open>srcLen\<close>) and an empty in-memory writer leaves in
  the writer exactly the buffer Apply returns, returns its length as the count, and
  fails exactly when Apply fails, with the same validation error.
\<close>

theorem ApplyTo_parity:
  "\<exists>out err. Apply src E = Inr (out, err) \<and>
     ApplyTo [] src (int (length src)) E =
       (out, (if err = None then [] else src), int (length out), map_option Inl err)"
proof (cases "Validate (int (length src)) E")
  case (Inl err)
  then have "Apply src E = Inr ([], Some err)"
    by (simp add: Apply_def validate_Validate)
  moreover from Inl have "ApplyTo [] src (int (length src)) E = ([], src, 0, Some (Inl err))"
    by (simp add: ApplyTo_def)
  ultimately show ?thesis by simp
next
  case (Inr r)
  then obtain E' sz where v: "Validate (int (length src)) E = Inr (E', sz)" by (cases r) simp
  then have "Apply src E = Inr (splice src 0 E', None)"
    using Apply_valid [of src E E' sz] by (simp add: validate_Validate)
  with ApplyTo_valid [OF v] show ?thesis by simp
qed

section \<open>Line expansion\<close>

subsection \<open>Segments of the source\<close>

lemma slice_seg:
  "0 \<le> lo \<Longrightarrow> lo \<le> hi \<Longrightarrow> hi \<le> int (length s) \<Longrightarrow> slice s lo hi = Inr (seg s lo hi)"
  by (simp add: slice_def seg_def)

lemma length_seg:
  "0 \<le> lo \<Longrightarrow> lo \<le> hi \<Longrightarrow> hi \<le> int (length s) \<Longrightarrow> int (length (seg s lo hi)) = hi - lo"
  by (simp add: seg_def)

lemma seg_empty [simp]: "seg s a a = []"
  by (simp add: seg_def)

lemma seg_seg:
  assumes "0 \<le> a" "a \<le> b" "b \<le> c"
  shows "seg s a b @ seg s b c = seg s a c"
proof -
  have "nat (c - a) = nat (b - a) + nat (c - b)" "nat b = nat (b - a) + nat a"
    using assms by linarith+
  then show ?thesis
    unfolding seg_def by (simp add: take_add add.commute)
qed

lemma seg_drop:
  assumes "0 \<le> a" "a \<le> b"
  shows "seg s a b @ drop (nat b) s = drop (nat a) s"
proof -
  have "nat b = nat (b - a) + nat a"
    using assms by linarith
  then have "drop (nat b) s = drop (nat (b - a)) (drop (nat a) s)"
    by simp
  then show ?thesis
    unfolding seg_def by (simp only: append_take_drop_id)
qed

lemma seg_to_end: "0 \<le> a \<Longrightarrow> seg s a (int (length s)) = drop (nat a) s"
  by (simp add: seg_def)

lemma nth_seg:
  "0 \<le> a \<Longrightarrow> b \<le> int (length s) \<Longrightarrow> i < nat (b - a) \<Longrightarrow> seg s a b ! i = s ! (nat a + i)"
  by (simp add: seg_def)

lemma in_seg_iff:
  assumes "0 \<le> a" "a \<le> b" "b \<le> int (length s)"
  shows "c \<in> set (seg s a b) \<longleftrightarrow> (\<exists>p. a \<le> p \<and> p < b \<and> s ! nat p = c)"
proof
  assume "c \<in> set (seg s a b)"
  then obtain i where i: "i < length (seg s a b)" "seg s a b ! i = c"
    by (auto simp: in_set_conv_nth)
  from i(1) assms have lt: "i < nat (b - a)"
    using length_seg [OF assms, of] by linarith
  with i(2) assms have "s ! (nat a + i) = c" by (simp add: nth_seg)
  moreover have "nat (a + int i) = nat a + i" using assms by linarith
  ultimately have "a \<le> a + int i \<and> a + int i < b \<and> s ! nat (a + int i) = c"
    using lt by auto
  then show "\<exists>p. a \<le> p \<and> p < b \<and> s ! nat p = c" by blast
next
  assume "\<exists>p. a \<le> p \<and> p < b \<and> s ! nat p = c"
  then obtain p where p: "a \<le> p" "p < b" "s ! nat p = c" by blast
  let ?i = "nat (p - a)"
  have lt: "?i < nat (b - a)" using p assms by linarith
  have "nat a + ?i = nat p" using p assms by linarith
  with lt assms p have "seg s a b ! ?i = c" by (simp add: nth_seg)
  moreover have "?i < length (seg s a b)"
    using lt length_seg [OF assms] by linarith
  ultimately show "c \<in> set (seg s a b)"
    by (auto simp: in_set_conv_nth)
qed

subsection \<open>IndexByte and LastIndexByte\<close>

lemma IndexByte_notin: "c \<notin> set s \<Longrightarrow> IndexByte s c = - 1"
  by (induction s) auto

lemma IndexByte_in:
  "c \<in> set s \<Longrightarrow> 0 \<le> IndexByte s c \<and> IndexByte s c < int (length s) \<and>
     s ! nat (IndexByte s c) = c \<and> c \<notin> set (take (nat (IndexByte s c)) s)"
proof (induction s)
  case Nil
  then show ?case by simp
next
  case (Cons x xs)
  show ?case
  proof (cases "x = c")
    case True
    then show ?thesis by simp
  next
    case False
    with Cons.prems have "c \<in> set xs" by simp
    from Cons.IH [OF this] False show ?thesis
      by (auto simp: Let_def nat_add_distrib take_Cons' nth_Cons')
  qed
qed

lemma IndexByte_neg_iff: "IndexByte s c < 0 \<longleftrightarrow> c \<notin> set s"
  using IndexByte_in [of c s] IndexByte_notin [of c s] by fastforce

lemma LastIndexByte_notin: "c \<notin> set s \<Longrightarrow> LastIndexByte s c = - 1"
  by (simp add: LastIndexByte_def IndexByte_notin)

lemma LastIndexByte_in:
  assumes "c \<in> set s"
  shows "0 \<le> LastIndexByte s c \<and> LastIndexByte s c < int (length s) \<and>
     s ! nat (LastIndexByte s c) = c \<and> c \<notin> set (drop (nat (LastIndexByte s c + 1)) s)"
proof -
  let ?j = "IndexByte (rev s) c"
  from assms have "c \<in> set (rev s)" by simp
  from IndexByte_in [OF this]
  have j: "0 \<le> ?j" "?j < int (length s)" "rev s ! nat ?j = c" "c \<notin> set (take (nat ?j) (rev s))"
    by simp_all
  have L: "LastIndexByte s c = int (length s) - 1 - ?j"
    using j by (simp add: LastIndexByte_def Let_def)
  have n: "nat (int (length s) - 1 - ?j) = length s - Suc (nat ?j)"
    using j by linarith
  have "s ! (length s - Suc (nat ?j)) = c"
    using j by (simp add: rev_nth)
  moreover have "nat (int (length s) - 1 - ?j + 1) = length s - nat ?j"
    using j by linarith
  moreover have "c \<notin> set (drop (length s - nat ?j) s)"
    using j(4) by (simp add: take_rev)
  ultimately show ?thesis
    using j L n by simp
qed

lemma LastIndexByte_range: "- 1 \<le> LastIndexByte s c \<and> LastIndexByte s c < int (length s)"
  using LastIndexByte_in [of c s] LastIndexByte_notin [of c s] by (cases "c \<in> set s") auto

subsection \<open>Line boundaries\<close>

lemma lineStart_bounds:
  assumes "0 \<le> s" "s \<le> int (length src)"
  shows "0 \<le> lineStart src s" "lineStart src s \<le> s"
proof -
  have "int (length (seg src 0 s)) = s"
    using length_seg [of 0 s src] assms by simp
  with LastIndexByte_range [of "seg src 0 s" nl]
  show "0 \<le> lineStart src s" "lineStart src s \<le> s"
    by (simp_all add: lineStart_def)
qed

lemma lineStart_aligned:
  assumes "0 \<le> s" "s \<le> int (length src)"
  shows "lineStart src s = 0 \<or> afterNewline src (lineStart src s)"
proof (cases "nl \<in> set (seg src 0 s)")
  case False
  then show ?thesis by (simp add: lineStart_def LastIndexByte_notin)
next
  case True
  let ?i = "LastIndexByte (seg src 0 s) nl"
  have len: "int (length (seg src 0 s)) = s"
    using length_seg [of 0 s src] assms by simp
  from LastIndexByte_in [OF True] len
  have i: "0 \<le> ?i" "?i < s" "seg src 0 s ! nat ?i = nl" by simp_all
  have "seg src 0 s ! nat ?i = src ! (nat 0 + nat ?i)"
    using i assms by (intro nth_seg) auto
  with i have "src ! nat ?i = nl" by simp
  with i assms have "afterNewline src (?i + 1)"
    by (simp add: afterNewline_def)
  then show ?thesis by (simp add: lineStart_def)
qed

lemma lineStart_no_newline:
  assumes "0 \<le> s" "s \<le> int (length src)"
  shows "nl \<notin> set (seg src (lineStart src s) s)"
proof (cases "nl \<in> set (seg src 0 s)")
  case False
  then show ?thesis by (simp add: lineStart_def LastIndexByte_notin)
next
  case True
  let ?i = "LastIndexByte (seg src 0 s) nl"
  have len: "int (length (seg src 0 s)) = s"
    using length_seg [of 0 s src] assms by simp
  from LastIndexByte_in [OF True] len
  have i: "0 \<le> ?i" "?i < s" "nl \<notin> set (drop (nat (?i + 1)) (seg src 0 s))" by simp_all
  have "drop (nat (?i + 1)) (seg src 0 s) = seg src (?i + 1) s"
  proof -
    have "nat s - nat (?i + 1) = nat (s - (?i + 1))" using i by linarith
    then show ?thesis
      using i by (simp add: seg_def drop_take)
  qed
  with i show ?thesis by (simp add: lineStart_def)
qed

lemma lineStart_after:
  assumes "0 \<le> p" "p < s" "s \<le> int (length src)" "src ! nat p = nl"
  shows "p + 1 \<le> lineStart src s"
proof (rule ccontr)
  assume "\<not> p + 1 \<le> lineStart src s"
  then have "lineStart src s \<le> p" by simp
  moreover have "0 \<le> lineStart src s" "lineStart src s \<le> s"
    using lineStart_bounds [of s src] assms by simp_all
  ultimately have "nl \<in> set (seg src (lineStart src s) s)"
    using assms by (subst in_seg_iff) auto
  with lineStart_no_newline [of s src] assms show False by simp
qed

lemma lineEnd_bounds:
  assumes "0 \<le> e" "e \<le> int (length src)"
  shows "e \<le> lineEnd src e" "lineEnd src e \<le> int (length src)"
proof -
  let ?t = "seg src e (int (length src))"
  have len: "int (length ?t) = int (length src) - e"
    using length_seg [of e "int (length src)" src] assms by simp
  show "e \<le> lineEnd src e"
    using IndexByte_in [of nl ?t] assms
    by (cases "nl \<in> set ?t") (auto simp: lineEnd_def Let_def IndexByte_neg_iff)
  show "lineEnd src e \<le> int (length src)"
    using IndexByte_in [of nl ?t] len
    by (cases "nl \<in> set ?t") (auto simp: lineEnd_def Let_def IndexByte_neg_iff)
qed

lemma lineEnd_aligned:
  assumes "0 \<le> e" "e \<le> int (length src)"
  shows "lineEnd src e = int (length src) \<or> afterNewline src (lineEnd src e)"
proof (cases "nl \<in> set (seg src e (int (length src)))")
  case False
  then show ?thesis by (simp add: lineEnd_def Let_def IndexByte_neg_iff)
next
  case True
  let ?t = "seg src e (int (length src))"
  let ?i = "IndexByte ?t nl"
  have len: "int (length ?t) = int (length src) - e"
    using length_seg [of e "int (length src)" src] assms by simp
  from IndexByte_in [OF True] len
  have i: "0 \<le> ?i" "?i < int (length src) - e" "?t ! nat ?i = nl" by simp_all
  have "?t ! nat ?i = src ! (nat e + nat ?i)"
    using i assms by (intro nth_seg) auto
  moreover have "nat e + nat ?i = nat (e + ?i)" using i assms by linarith
  ultimately have "src ! nat (e + ?i) = nl" using i by simp
  with i assms have "afterNewline src (e + ?i + 1)"
    by (simp add: afterNewline_def)
  moreover have "lineEnd src e = e + ?i + 1"
    using i by (simp add: lineEnd_def Let_def)
  ultimately show ?thesis by simp
qed

lemma lineEnd_before:
  assumes "0 \<le> e" "e \<le> p" "p < int (length src)" "src ! nat p = nl"
  shows "lineEnd src e \<le> p + 1"
proof -
  let ?t = "seg src e (int (length src))"
  let ?i = "IndexByte ?t nl"
  have len: "int (length ?t) = int (length src) - e"
    using length_seg [of e "int (length src)" src] assms by simp
  have mem: "nl \<in> set ?t"
    using assms by (subst in_seg_iff) auto
  from IndexByte_in [OF mem] len
  have i: "0 \<le> ?i" "?i < int (length src) - e" "nl \<notin> set (take (nat ?i) ?t)" by simp_all
  have tk: "take (nat ?i) ?t = seg src e (e + ?i)"
    using i by (simp add: seg_def min_def)
  have "\<not> (e \<le> p \<and> p < e + ?i)"
  proof
    assume "e \<le> p \<and> p < e + ?i"
    then have "nl \<in> set (seg src e (e + ?i))"
      using assms i by (subst in_seg_iff) auto
    with i(3) tk show False by simp
  qed
  with assms have "e + ?i \<le> p" by simp
  moreover have "lineEnd src e = e + ?i + 1"
    using i by (simp add: lineEnd_def Let_def)
  ultimately show ?thesis by simp
qed

lemma lineEnd_le_lineStart:
  assumes "0 \<le> a" "a \<le> b" "b \<le> int (length src)" "nl \<in> set (seg src a b)"
  shows "lineEnd src a \<le> lineStart src b"
proof -
  from assms obtain p where p: "a \<le> p" "p < b" "src ! nat p = nl"
    by (subst (asm) in_seg_iff) auto
  have "lineEnd src a \<le> p + 1"
    using assms p by (intro lineEnd_before) auto
  also have "p + 1 \<le> lineStart src b"
    using assms p by (intro lineStart_after) auto
  finally show ?thesis .
qed

subsection \<open>expandEdit\<close>

lemma expandLeft_eq:
  assumes "0 \<le> Start e" "Start e \<le> int (length src)"
  shows "expandLeft e src =
     Inr (e\<lparr>Start := lineStart src (Start e),
             New := seg src (lineStart src (Start e)) (Start e) @ New e\<rparr>)"
proof -
  note ls = lineStart_bounds [OF assms]
  have delta: "Start e - 1 - LastIndexByte (seg src 0 (Start e)) nl = Start e - lineStart src (Start e)"
    by (simp add: lineStart_def)
  have sl1: "slice src 0 (Start e) = Inr (seg src 0 (Start e))"
    using assms by (intro slice_seg) auto
  have sl2: "slice src (lineStart src (Start e)) (Start e) = Inr (seg src (lineStart src (Start e)) (Start e))"
    using ls assms by (intro slice_seg) auto
  show ?thesis
  proof (cases "Start e - lineStart src (Start e) > 0")
    case True
    then show ?thesis
      by (simp add: expandLeft_def Let_def sl1 delta sl2)
  next
    case False
    with ls have eq: "lineStart src (Start e) = Start e" by simp
    then show ?thesis
      by (simp add: expandLeft_def Let_def sl1 delta)
  qed
qed

lemma expandRight_eq:
  assumes "0 \<le> End e" "End e \<le> int (length src)"
  shows "expandRight e src =
     Inr (e\<lparr>End := lineEnd src (End e), New := New e @ seg src (End e) (lineEnd src (End e))\<rparr>)"
proof -
  note le = lineEnd_bounds [OF assms]
  have sl3: "slice src (End e) (int (length src)) = Inr (seg src (End e) (int (length src)))"
    using assms by (intro slice_seg) auto
  have sl4: "slice src (End e) (lineEnd src (End e)) = Inr (seg src (End e) (lineEnd src (End e)))"
    using assms le by (intro slice_seg) auto
  show ?thesis
  proof (cases "IndexByte (seg src (End e) (int (length src))) nl < 0")
    case True
    then have eq: "lineEnd src (End e) = int (length src)"
      by (simp add: lineEnd_def Let_def)
    from True show ?thesis
      using sl4 by (simp add: expandRight_def Let_def sl3 eq)
  next
    case False
    then have eq: "End e + IndexByte (seg src (End e) (int (length src))) nl + 1 = lineEnd src (End e)"
      by (simp add: lineEnd_def Let_def)
    from False show ?thesis
      using sl4 by (simp add: expandRight_def Let_def sl3 eq)
  qed
qed

lemma expandEdit_eq:
  assumes "inBounds (int (length src)) e"
  shows "expandEdit e src =
     Inr (e\<lparr>Start := lineStart src (Start e), End := lineEnd src (End e),
             New := seg src (lineStart src (Start e)) (Start e) @ New e @
                    seg src (End e) (lineEnd src (End e))\<rparr>)"
proof -
  from assms have b: "0 \<le> Start e" "Start e \<le> int (length src)" "0 \<le> End e" "End e \<le> int (length src)"
    by (simp_all add: inBounds_def)
  let ?e1 = "e\<lparr>Start := lineStart src (Start e),
             New := seg src (lineStart src (Start e)) (Start e) @ New e\<rparr>"
  have "expandEdit e src = expandRight ?e1 src"
    by (simp add: expandEdit_def expandLeft_eq [OF b(1,2)])
  also have "\<dots> = Inr (?e1\<lparr>End := lineEnd src (End ?e1), New := New ?e1 @ seg src (End ?e1) (lineEnd src (End ?e1))\<rparr>)"
    using b by (intro expandRight_eq) simp_all
  finally show ?thesis by simp
qed

subsection \<open>Validated edits as a chain\<close>

lemma validateLoop_chain: "(\<exists>sz'. validateLoop L es sz lo = Inr sz') \<longleftrightarrow> chain L lo es"
  by (induction es arbitrary: sz lo) (auto simp: inBounds_def)

lemma chain_mono: "chain L lo es \<Longrightarrow> lo' \<le> lo \<Longrightarrow> chain L lo' es"
  by (cases es) auto

lemma chain_IsSorted: "chain L lo es \<Longrightarrow> IsSorted es"
proof (induction es arbitrary: lo rule: IsSorted.induct)
  case (3 x y zs)
  then have "chain L (End x) (y # zs)" by simp
  with 3 show ?case
    by (auto simp: Less_def inBounds_def Let_def)
qed simp_all

lemma validate_chain: "validate src E = Inr (E', sz) \<Longrightarrow> chain (int (length src)) 0 E'"
  using validateLoop_chain [of "int (length src)" E' "int (length src)" 0]
  by (auto simp: validate_def Let_def split: sum.splits if_splits)

lemma chain_validate:
  assumes "chain (int (length src)) 0 es"
  shows "\<exists>sz. validate src es = Inr (es, sz)"
proof -
  from assms obtain sz where "validateLoop (int (length src)) es (int (length src)) 0 = Inr sz"
    using validateLoop_chain [of "int (length src)" es "int (length src)" 0] by blast
  moreover have "IsSorted es" using assms by (rule chain_IsSorted)
  ultimately show ?thesis by (simp add: validate_def)
qed

lemma chain_inBounds: "chain L lo es \<Longrightarrow> e \<in> set es \<Longrightarrow> inBounds L e"
  by (induction es arbitrary: lo) auto

lemma splice_Cons_seg:
  "splice src lo (e # es) = seg src lo (Start e) @ New e @ splice src (End e) es"
  by (simp add: seg_def)

subsection \<open>The expansion loop\<close>

lemma expanded_edit_props:
  assumes "inBounds (int (length src)) e"
  defines "ex \<equiv> e\<lparr>Start := lineStart src (Start e), End := lineEnd src (End e),
             New := seg src (lineStart src (Start e)) (Start e) @ New e @
                    seg src (End e) (lineEnd src (End e))\<rparr>"
  shows "inBounds (int (length src)) ex" "expandedAligned src ex"
    and "0 \<le> lo \<Longrightarrow> lo \<le> lineStart src (Start e) \<Longrightarrow>
           seg src lo (Start ex) @ New ex = seg src lo (Start e) @ New e @ seg src (End e) (End ex)"
proof -
  from assms have b: "0 \<le> Start e" "Start e \<le> End e" "End e \<le> int (length src)"
    by (simp_all add: inBounds_def)
  then have b': "Start e \<le> int (length src)" "0 \<le> End e" by simp_all
  note ls = lineStart_bounds [OF b(1) b'(1)]
  note le = lineEnd_bounds [OF b'(2) b(3)]
  show "inBounds (int (length src)) ex"
    using ls le b by (simp add: inBounds_def ex_def)
  show "expandedAligned src ex"
    using lineStart_aligned [OF b(1) b'(1)] lineEnd_aligned [OF b'(2) b(3)]
    by (simp add: expandedAligned_def ex_def)
  show "seg src lo (Start ex) @ New ex = seg src lo (Start e) @ New e @ seg src (End e) (End ex)"
    if "0 \<le> lo" "lo \<le> lineStart src (Start e)"
  proof -
    have "seg src lo (lineStart src (Start e)) @ seg src (lineStart src (Start e)) (Start e) = seg src lo (Start e)"
      using that ls by (intro seg_seg) auto
    then show ?thesis
      by (simp add: ex_def flip: append_assoc)
  qed
qed

lemma expandLoop_correct:
  assumes "inBounds (int (length src)) prev" "chain (int (length src)) (End prev) rest"
  shows "\<exists>X. expandLoop src prev rest expanded = Inr (expanded @ X) \<and>
            (\<forall>e\<in>set X. expandedAligned src e) \<and>
            (\<forall>lo. 0 \<le> lo \<and> lo \<le> lineStart src (Start prev) \<longrightarrow>
                chain (int (length src)) lo X \<and> splice src lo X = splice src lo (prev # rest))"
  using assms
proof (induction rest arbitrary: prev expanded)
  case Nil
  let ?ex = "prev\<lparr>Start := lineStart src (Start prev), End := lineEnd src (End prev),
             New := seg src (lineStart src (Start prev)) (Start prev) @ New prev @
                    seg src (End prev) (lineEnd src (End prev))\<rparr>"
  note p = expanded_edit_props [OF Nil.prems(1)]
  from Nil.prems have b: "0 \<le> End prev" "End prev \<le> int (length src)"
    by (simp_all add: inBounds_def)
  have run: "expandLoop src prev [] expanded = Inr (expanded @ [?ex])"
    by (simp add: expandEdit_eq [OF Nil.prems(1)])
  have "chain (int (length src)) lo [?ex] \<and> splice src lo [?ex] = splice src lo [prev]"
    if lo: "0 \<le> lo" "lo \<le> lineStart src (Start prev)" for lo
  proof
    show "chain (int (length src)) lo [?ex]"
      using p(1) lo by simp
    have "splice src lo [?ex] = (seg src lo (Start ?ex) @ New ?ex) @ drop (nat (End ?ex)) src"
      by (simp add: seg_def)
    also have "\<dots> = (seg src lo (Start prev) @ New prev @ seg src (End prev) (End ?ex)) @ drop (nat (End ?ex)) src"
      using p(3) [OF lo] by simp
    also have "\<dots> = seg src lo (Start prev) @ New prev @ (seg src (End prev) (End ?ex) @ drop (nat (End ?ex)) src)"
      by simp
    also have "seg src (End prev) (End ?ex) @ drop (nat (End ?ex)) src = drop (nat (End prev)) src"
      using b lineEnd_bounds [OF b] by (intro seg_drop) auto
    finally show "splice src lo [?ex] = splice src lo [prev]"
      by (simp add: seg_def)
  qed
  with run p(2) show ?case by auto
next
  case (Cons edit edits)
  let ?L = "int (length src)"
  from Cons.prems have pb: "0 \<le> Start prev" "Start prev \<le> End prev" "End prev \<le> ?L"
    and eb: "inBounds ?L edit" "End prev \<le> Start edit" and ch: "chain ?L (End edit) edits"
    by (simp_all add: inBounds_def)
  from eb have eb': "0 \<le> Start edit" "Start edit \<le> End edit" "End edit \<le> ?L"
    by (simp_all add: inBounds_def)
  have sl: "slice src (End prev) (Start edit) = Inr (seg src (End prev) (Start edit))"
    using pb eb eb' by (intro slice_seg) auto
  show ?case
  proof (cases "ContainsNewline (seg src (End prev) (Start edit))")
    case False
    let ?m = "prev\<lparr>New := New prev @ seg src (End prev) (Start edit) @ New edit, End := End edit\<rparr>"
    have mb: "inBounds ?L ?m"
      using pb eb eb' by (simp add: inBounds_def)
    have mc: "chain ?L (End ?m) edits" using ch by simp
    from Cons.IH [OF mb mc, of expanded]
    obtain X where X: "expandLoop src ?m edits expanded = Inr (expanded @ X)"
      "\<forall>e\<in>set X. expandedAligned src e"
      "\<forall>lo. 0 \<le> lo \<and> lo \<le> lineStart src (Start ?m) \<longrightarrow>
          chain ?L lo X \<and> splice src lo X = splice src lo (?m # edits)"
      by blast
    have "splice src lo (?m # edits) = splice src lo (prev # edit # edits)" for lo
      by (simp add: seg_def)
    with X(3) have "\<forall>lo. 0 \<le> lo \<and> lo \<le> lineStart src (Start prev) \<longrightarrow>
          chain ?L lo X \<and> splice src lo X = splice src lo (prev # edit # edits)"
      by simp
    moreover have "expandLoop src prev (edit # edits) expanded = Inr (expanded @ X)"
      using False X(1) by (simp add: sl)
    ultimately show ?thesis using X(2) by blast
  next
    case True
    let ?ex = "prev\<lparr>Start := lineStart src (Start prev), End := lineEnd src (End prev),
             New := seg src (lineStart src (Start prev)) (Start prev) @ New prev @
                    seg src (End prev) (lineEnd src (End prev))\<rparr>"
    note p = expanded_edit_props [OF Cons.prems(1)]
    have pe: "0 \<le> End prev" using pb by simp
    note le = lineEnd_bounds [OF pe pb(3)]
    have flush: "lineEnd src (End prev) \<le> lineStart src (Start edit)"
      using True pe eb eb' by (intro lineEnd_le_lineStart) (auto simp: ContainsNewline_def)
    from Cons.IH [OF eb(1) ch, of "expanded @ [?ex]"]
    obtain X where X: "expandLoop src edit edits (expanded @ [?ex]) = Inr ((expanded @ [?ex]) @ X)"
      "\<forall>e\<in>set X. expandedAligned src e"
      "\<forall>lo. 0 \<le> lo \<and> lo \<le> lineStart src (Start edit) \<longrightarrow>
          chain ?L lo X \<and> splice src lo X = splice src lo (edit # edits)"
      by blast
    have run: "expandLoop src prev (edit # edits) expanded = Inr (expanded @ (?ex # X))"
      using True X(1) by (simp add: sl expandEdit_eq [OF Cons.prems(1)])
    from X(3) flush le pe
    have tail: "chain ?L (End ?ex) X" "splice src (End ?ex) X = splice src (End ?ex) (edit # edits)"
      by simp_all
    have "chain ?L lo (?ex # X) \<and> splice src lo (?ex # X) = splice src lo (prev # edit # edits)"
      if lo: "0 \<le> lo" "lo \<le> lineStart src (Start prev)" for lo
    proof
      show "chain ?L lo (?ex # X)"
        using p(1) lo tail(1) by simp
      have le_start: "End ?ex \<le> Start edit"
        using flush lineStart_bounds [of "Start edit" src] eb' by simp
      have A: "splice src lo (?ex # X) = seg src lo (Start ?ex) @ New ?ex @ splice src (End ?ex) X"
        by (rule splice_Cons_seg)
      have B: "seg src lo (Start ?ex) @ New ?ex = seg src lo (Start prev) @ New prev @ seg src (End prev) (End ?ex)"
        using p(3) [OF lo] .
      have C: "splice src (End ?ex) X = seg src (End ?ex) (Start edit) @ New edit @ splice src (End edit) edits"
        using tail(2) by (simp only: splice_Cons_seg)
      have D: "seg src (End prev) (End ?ex) @ seg src (End ?ex) (Start edit) = seg src (End prev) (Start edit)"
        using pe le le_start by (intro seg_seg) auto
      have E: "splice src lo (prev # edit # edits) =
          seg src lo (Start prev) @ New prev @ seg src (End prev) (Start edit) @ New edit @ splice src (End edit) edits"
        by (simp only: splice_Cons_seg)
      have "splice src lo (?ex # X) = (seg src lo (Start ?ex) @ New ?ex) @ splice src (End ?ex) X"
        by (simp only: A append_assoc)
      also have "\<dots> = (seg src lo (Start prev) @ New prev @ seg src (End prev) (End ?ex)) @
          (seg src (End ?ex) (Start edit) @ New edit @ splice src (End edit) edits)"
        by (simp only: B C)
      also have "\<dots> = seg src lo (Start prev) @ New prev @
          (seg src (End prev) (End ?ex) @ seg src (End ?ex) (Start edit)) @ New edit @ splice src (End edit) edits"
        by (simp only: append_assoc)
      also have "\<dots> = splice src lo (prev # edit # edits)"
        by (simp only: D E)
      finally show "splice src lo (?ex # X) = splice src lo (prev # edit # edits)" .
    qed
    with run X(2) p(2) show ?thesis by auto
  qed
qed

subsection \<open>The fast path\<close>

lemma misaligned_inBounds:
  assumes "inBounds (int (length src)) e"
  shows "misaligned src e = Inr (\<not> fastAligned src e)"
proof -
  from assms have b: "0 \<le> Start e" "Start e \<le> End e" "End e \<le> int (length src)"
    by (simp_all add: inBounds_def)
  show ?thesis
  proof (cases "Start e \<ge> int (length src)")
    case True
    then show ?thesis by (simp add: misaligned_def fastAligned_def)
  next
    case False
    have s: "notNewlineAt src (Start e - 1) = Inr (src ! nat (Start e - 1) \<noteq> nl)" if "Start e > 0"
      using that False by (simp add: notNewlineAt_def index_def)
    have e: "notNewlineAt src (End e - 1) = Inr (src ! nat (End e - 1) \<noteq> nl)" if "End e > 0"
      using that b by (simp add: notNewlineAt_def index_def)
    from False b s e show ?thesis
      by (auto simp: misaligned_def fastAligned_def afterNewline_def split: bool.splits)
  qed
qed

lemma anyMisaligned_chain:
  "chain (int (length src)) lo es \<Longrightarrow>
   anyMisaligned src es = Inr (\<not> (\<forall>e\<in>set es. fastAligned src e))"
  by (induction es arbitrary: lo) (auto simp: misaligned_inBounds split: bool.splits)

lemma fastAligned_lineAligned: "fastAligned src e \<Longrightarrow> lineAligned src e"
  by (auto simp: fastAligned_def lineAligned_def)

lemma expandedAligned_lineAligned: "expandedAligned src e \<Longrightarrow> lineAligned src e"
  by (auto simp: expandedAligned_def lineAligned_def)

lemma lineEdits_fast:
  assumes "validate src E = Inr (E', sz)" "\<forall>e\<in>set E'. fastAligned src e"
  shows "lineEdits src E = Inr (E', None)"
  using assms anyMisaligned_chain [OF validate_chain [OF assms(1)]]
  by (simp add: lineEdits_def)

lemma lineEdits_expand:
  assumes "validate src E = Inr (E', sz)" "\<not> (\<forall>e\<in>set E'. fastAligned src e)"
  shows "\<exists>X. lineEdits src E = Inr (X, None) \<and> (\<forall>e\<in>set X. expandedAligned src e) \<and>
           chain (int (length src)) 0 X \<and> splice src 0 X = splice src 0 E'"
proof -
  note ch = validate_chain [OF assms(1)]
  from assms(2) obtain prev rest where E': "E' = prev # rest" by (cases E') auto
  with ch have pb: "inBounds (int (length src)) prev" and rc: "chain (int (length src)) (End prev) rest"
    by simp_all
  from expandLoop_correct [OF pb rc, of "[]"]
  obtain X where X: "expandLoop src prev rest [] = Inr X" "\<forall>e\<in>set X. expandedAligned src e"
      "\<forall>lo. 0 \<le> lo \<and> lo \<le> lineStart src (Start prev) \<longrightarrow>
          chain (int (length src)) lo X \<and> splice src lo X = splice src lo (prev # rest)"
    by auto
  from pb have "0 \<le> lineStart src (Start prev)"
    by (intro lineStart_bounds) (auto simp: inBounds_def)
  with X(3) have "chain (int (length src)) 0 X \<and> splice src 0 X = splice src 0 (prev # rest)"
    by simp
  moreover have "lineEdits src E = Inr (X, None)"
    using assms anyMisaligned_chain [OF ch] X(1) E' by (simp add: lineEdits_def)
  ultimately show ?thesis using X(2) E' by blast
qed

text \<open>
  Claim C4, as the code has it. For a source and edits that pass validation, lineEdits
  returns without error a list whose application gives the same text as applying the
  original edits, and every edit of that list starts at offset 0 or just after a
  newline and ends at offset 0, at the end of the source, or just after a newline.
\<close>

theorem lineEdits_preserves_meaning:
  "validate src E = Inr (E', sz) \<Longrightarrow>
     (\<exists>X. lineEdits src E = Inr (X, None) \<and>
           Apply src X = Apply src E \<and>
           Apply src E = Inr (splice src 0 E', None) \<and>
           (\<forall>e\<in>set X. lineAligned src e))"
proof -
  assume v: "validate src E = Inr (E', sz)"
  have AE: "Apply src E = Inr (splice src 0 E', None)"
    using Apply_valid [OF v] by simp
  show ?thesis
  proof (cases "\<forall>e\<in>set E'. fastAligned src e")
    case True
    have "\<exists>sz'. validate src E' = Inr (E', sz')"
      using validate_chain [OF v] by (rule chain_validate)
    then obtain sz' where "validate src E' = Inr (E', sz')" ..
    from Apply_valid [OF this] AE have "Apply src E' = Apply src E" by simp
    with lineEdits_fast [OF v True] AE True show ?thesis
      by (auto intro: fastAligned_lineAligned)
  next
    case False
    from lineEdits_expand [OF v False]
    obtain X where X: "lineEdits src E = Inr (X, None)" "\<forall>e\<in>set X. expandedAligned src e"
      "chain (int (length src)) 0 X" "splice src 0 X = splice src 0 E'"
      by blast
    from chain_validate [OF X(3)] obtain sz' where "validate src X = Inr (X, sz')" ..
    from Apply_valid [OF this] AE X(4) have "Apply src X = Apply src E" by simp
    with X AE show ?thesis
      by (auto intro: expandedAligned_lineAligned)
  qed
qed

lemma lineEdits_expandPath:
  assumes "validate src E = Inr (E', sz)" "\<not> (\<forall>e\<in>set E'. fastAligned src e)"
  shows "\<exists>X. expandPath src E' = Inr X \<and> lineEdits src E = Inr (X, None)"
proof -
  note ch = validate_chain [OF assms(1)]
  from assms(2) obtain prev rest where E': "E' = prev # rest" by (cases E') auto
  with ch have pb: "inBounds (int (length src)) prev" and rc: "chain (int (length src)) (End prev) rest"
    by simp_all
  from expandLoop_correct [OF pb rc, of "[]"]
  obtain X where X: "expandLoop src prev rest [] = Inr X"
    by auto
  have "lineEdits src E = Inr (X, None)"
    using assms anyMisaligned_chain [OF ch] X E' by (simp add: lineEdits_def)
  with X E' show ?thesis by (simp add: expandPath_def)
qed

text \<open>
  Claim C5, as the code has it. The fast path returns the validated list unchanged when
  every edit starts before the end of the source and has both its start and its end at
  offset 0 or just after a newline. An edit that starts at the end of the source always
  sends lineEdits to the expansion path: what is returned then is the list built after
  the label \<^verbatim>\<open>expand\<close>.
\<close>

theorem lineEdits_fast_path:
  "validate src E = Inr (E', sz) \<Longrightarrow>
   ((\<forall>e\<in>set E'. Start e < int (length src) \<and>
        (Start e = 0 \<or> afterNewline src (Start e)) \<and> (End e = 0 \<or> afterNewline src (End e))) \<longrightarrow>
      lineEdits src E = Inr (E', None)) \<and>
   ((\<exists>e\<in>set E'. int (length src) \<le> Start e) \<longrightarrow>
      (\<exists>X. expandPath src E' = Inr X \<and> lineEdits src E = Inr (X, None)))"
proof (intro conjI impI)
  assume v: "validate src E = Inr (E', sz)"
  {
    assume "\<forall>e\<in>set E'. Start e < int (length src) \<and>
        (Start e = 0 \<or> afterNewline src (Start e)) \<and> (End e = 0 \<or> afterNewline src (End e))"
    then have "\<forall>e\<in>set E'. fastAligned src e" by (simp add: fastAligned_def)
    with v show "lineEdits src E = Inr (E', None)" by (rule lineEdits_fast)
  }
  {
    assume "\<exists>e\<in>set E'. int (length src) \<le> Start e"
    then obtain e where "e \<in> set E'" "\<not> fastAligned src e" by (auto simp: fastAligned_def)
    then have "\<not> (\<forall>e\<in>set E'. fastAligned src e)" by blast
    with v show "\<exists>X. expandPath src E' = Inr X \<and> lineEdits src E = Inr (X, None)"
      by (rule lineEdits_expandPath)
  }
qed

theorem lineEdits_preserves_meaning_witness:
  "validate (''gord'' @ [nl]) [\<lparr>Start = 2, End = 2, New = ''u''\<rparr>] = Inr ([\<lparr>Start = 2, End = 2, New = ''u''\<rparr>], 6) \<and>
   lineEdits (''gord'' @ [nl]) [\<lparr>Start = 2, End = 2, New = ''u''\<rparr>] =
     Inr ([\<lparr>Start = 0, End = 5, New = ''gourd'' @ [nl]\<rparr>], None) \<and>
   Apply (''gord'' @ [nl]) [\<lparr>Start = 0, End = 5, New = ''gourd'' @ [nl]\<rparr>] =
     Apply (''gord'' @ [nl]) [\<lparr>Start = 2, End = 2, New = ''u''\<rparr>] \<and>
   Apply (''gord'' @ [nl]) [\<lparr>Start = 2, End = 2, New = ''u''\<rparr>] = Inr (''gourd'' @ [nl], None)"
proof -
  let ?src = "''gord'' @ [nl]"
  let ?E = "[\<lparr>Start = 2, End = 2, New = ''u''\<rparr>]"
  have v: "validate ?src ?E = Inr (?E, 6)"
    by (simp add: validate_def)
  have l: "lineEdits ?src ?E = Inr ([\<lparr>Start = 0, End = 5, New = ''gourd'' @ [nl]\<rparr>], None)"
    by code_simp
  from lineEdits_preserves_meaning [OF v] l
  have "Apply ?src [\<lparr>Start = 0, End = 5, New = ''gourd'' @ [nl]\<rparr>] = Apply ?src ?E"
    and "Apply ?src ?E = Inr (splice ?src 0 ?E, None)"
    by auto
  moreover have "splice ?src 0 ?E = ''gourd'' @ [nl]" by simp
  ultimately show ?thesis using v l by simp
qed

theorem lineEdits_end_at_zero_counterexample:
  "lineEdits (''A'' @ [nl]) [\<lparr>Start = 0, End = 0, New = ''X''\<rparr>] =
     Inr ([\<lparr>Start = 0, End = 0, New = ''X''\<rparr>], None) \<and>
   validate (''A'' @ [nl]) [\<lparr>Start = 0, End = 0, New = ''X''\<rparr>] =
     Inr ([\<lparr>Start = 0, End = 0, New = ''X''\<rparr>], 3) \<and>
   End \<lparr>Start = 0, End = 0, New = ''X''\<rparr> \<noteq> int (length (''A'' @ [nl])) \<and>
   \<not> afterNewline (''A'' @ [nl]) (End \<lparr>Start = 0, End = 0, New = ''X''\<rparr>)"
  by code_simp

text \<open>Two runs of the theorem: an insertion at the start of the second line, returned
  as it is, and an insertion at the end of a source without a final newline, expanded to
  the whole line.\<close>

theorem lineEdits_fast_path_witness:
  "validate (''1: one'' @ [nl] @ ''3: three'' @ [nl]) [\<lparr>Start = 7, End = 7, New = ''2: two'' @ [nl]\<rparr>] =
     Inr ([\<lparr>Start = 7, End = 7, New = ''2: two'' @ [nl]\<rparr>], 23) \<and>
   lineEdits (''1: one'' @ [nl] @ ''3: three'' @ [nl]) [\<lparr>Start = 7, End = 7, New = ''2: two'' @ [nl]\<rparr>] =
     Inr ([\<lparr>Start = 7, End = 7, New = ''2: two'' @ [nl]\<rparr>], None) \<and>
   validate ''A'' [\<lparr>Start = 1, End = 1, New = ''B''\<rparr>] = Inr ([\<lparr>Start = 1, End = 1, New = ''B''\<rparr>], 2) \<and>
   lineEdits ''A'' [\<lparr>Start = 1, End = 1, New = ''B''\<rparr>] = Inr ([\<lparr>Start = 0, End = 1, New = ''AB''\<rparr>], None)"
proof -
  let ?src = "''1: one'' @ [nl] @ ''3: three'' @ [nl]"
  let ?E = "[\<lparr>Start = 7, End = 7, New = ''2: two'' @ [nl]\<rparr>]"
  let ?F = "[\<lparr>Start = 1, End = 1, New = ''B''\<rparr>]"
  have v: "validate ?src ?E = Inr (?E, 23)"
    by (simp add: validate_def)
  have a: "\<forall>e\<in>set ?E. Start e < int (length ?src) \<and>
       (Start e = 0 \<or> afterNewline ?src (Start e)) \<and> (End e = 0 \<or> afterNewline ?src (End e))"
    by (simp add: afterNewline_def)
  from lineEdits_fast_path [OF v] a have 1: "lineEdits ?src ?E = Inr (?E, None)"
    by blast
  have w: "validate ''A'' ?F = Inr (?F, 2)"
    by (simp add: validate_def)
  have "\<exists>e\<in>set ?F. int (length ''A'') \<le> Start e"
    by simp
  with lineEdits_fast_path [OF w] obtain X where
    X: "expandPath ''A'' ?F = Inr X" "lineEdits ''A'' ?F = Inr (X, None)"
    by blast
  have "expandPath ''A'' ?F = Inr [\<lparr>Start = 0, End = 1, New = ''AB''\<rparr>]"
    by code_simp
  with X have 2: "lineEdits ''A'' ?F = Inr ([\<lparr>Start = 0, End = 1, New = ''AB''\<rparr>], None)"
    by simp
  from v 1 w 2 show ?thesis by blast
qed

theorem lineEdits_eof_insertion_counterexample:
  "validate ''A'' [\<lparr>Start = 1, End = 1, New = ''B''\<rparr>] = Inr ([\<lparr>Start = 1, End = 1, New = ''B''\<rparr>], 2) \<and>
   Start \<lparr>Start = 1, End = 1, New = ''B''\<rparr> \<ge> int (length ''A'') \<and>
   Start \<lparr>Start = 1, End = 1, New = ''B''\<rparr> = End \<lparr>Start = 1, End = 1, New = ''B''\<rparr> \<and>
   lineEdits ''A'' [\<lparr>Start = 1, End = 1, New = ''B''\<rparr>] = Inr ([\<lparr>Start = 0, End = 1, New = ''AB''\<rparr>], None) \<and>
   [\<lparr>Start = 0, End = 1, New = ''AB''\<rparr>] \<noteq> [\<lparr>Start = 1, End = 1, New = ''B''\<rparr>]"
  by code_simp

subsection \<open>The Myers engine\<close>

subsection \<open>Diagonal moves\<close>

lemma lcp_nth: "i < lcp xs ys \<Longrightarrow> xs ! i = ys ! i"
proof (induction xs ys arbitrary: i rule: lcp.induct)
  case (1 x xs y ys)
  then show ?case by (cases i) (auto split: if_splits)
qed simp_all

lemma lcp_le: "lcp xs ys \<le> length xs" "lcp xs ys \<le> length ys"
  by (induction xs ys rule: lcp.induct) auto

lemma lcp_maximal:
  "lcp xs ys < length xs \<Longrightarrow> lcp xs ys < length ys \<Longrightarrow> xs ! lcp xs ys \<noteq> ys ! lcp xs ys"
  by (induction xs ys rule: lcp.induct) auto

lemma lcp_Cons_drop:
  assumes "i < length xs" "j < length ys" "xs ! i = ys ! j"
  shows "lcp (drop i xs) (drop j ys) = Suc (lcp (drop (Suc i) xs) (drop (Suc j) ys))"
proof -
  have "drop i xs = xs ! i # drop (Suc i) xs" "drop j ys = ys ! j # drop (Suc j) ys"
    using assms(1,2) by (simp_all add: Cons_nth_drop_Suc)
  with assms(3) show ?thesis by simp
qed

lemma lcp_zero_drop:
  assumes "i < length xs" "j < length ys" "xs ! i \<noteq> ys ! j"
  shows "lcp (drop i xs) (drop j ys) = 0"
proof -
  have "drop i xs = xs ! i # drop (Suc i) xs" "drop j ys = ys ! j # drop (Suc j) ys"
    using assms(1,2) by (simp_all add: Cons_nth_drop_Suc)
  with assms(3) show ?thesis by simp
qed

lemma slide_snakeEnd:
  "0 \<le> x \<Longrightarrow> 0 \<le> y \<Longrightarrow>
   slide a b x y = Inr (snakeEnd a b x y, snakeEnd a b x y - (x - y))"
proof (induction a b x y rule: slide.induct)
  case (1 a b x y)
  show ?case
  proof (cases "x < int (length a) \<and> y < int (length b)")
    case False
    then have "drop (nat x) a = [] \<or> drop (nat y) b = []"
      using 1(2,3) by auto
    then have "lcp (drop (nat x) a) (drop (nat y) b) = 0"
      by (cases "drop (nat x) a") auto
    with False show ?thesis
      by (subst slide.simps) (auto simp add: snakeEnd_def)
  next
    case True
    then have ix: "index a x = Inr (a ! nat x)" and iy: "index b y = Inr (b ! nat y)"
      using 1(2,3) by (simp_all add: index_def)
    have nx: "nat x < length a" "nat y < length b" using True 1(2,3) by linarith+
    have sx: "nat (x + 1) = Suc (nat x)" "nat (y + 1) = Suc (nat y)" using 1(2,3) by linarith+
    show ?thesis
    proof (cases "a ! nat x = b ! nat y")
      case eq: True
      have "slide a b (x + 1) (y + 1) =
          Inr (snakeEnd a b (x + 1) (y + 1), snakeEnd a b (x + 1) (y + 1) - (x + 1 - (y + 1)))"
        using 1(1) [OF True ix iy eq] 1(2,3) by simp
      moreover have "snakeEnd a b (x + 1) (y + 1) = snakeEnd a b x y"
        using lcp_Cons_drop [OF nx eq] by (simp add: snakeEnd_def sx)
      ultimately show ?thesis
        using True ix iy eq by (subst slide.simps) simp
    next
      case ne: False
      have "snakeEnd a b x y = x"
        using lcp_zero_drop [OF nx ne] by (simp add: snakeEnd_def)
      then show ?thesis
        using True ix iy ne by (subst slide.simps) simp
    qed
  qed
qed

lemma snakeEnd_ge: "x \<le> snakeEnd a b x y"
  by (simp add: snakeEnd_def)

lemma snakeEnd_le:
  assumes "0 \<le> x" "0 \<le> y"
  shows "snakeEnd a b x y \<le> max x (int (length a))" "snakeEnd a b x y - (x - y) \<le> max y (int (length b))"
proof -
  have "lcp (drop (nat x) a) (drop (nat y) b) \<le> length a - nat x"
    "lcp (drop (nat x) a) (drop (nat y) b) \<le> length b - nat y"
    using lcp_le [of "drop (nat x) a" "drop (nat y) b"] by simp_all
  then show "snakeEnd a b x y \<le> max x (int (length a))"
    "snakeEnd a b x y - (x - y) \<le> max y (int (length b))"
    using assms unfolding snakeEnd_def by linarith+
qed

lemma snakeEnd_eq:
  assumes "0 \<le> x" "0 \<le> y" "x \<le> i" "i < snakeEnd a b x y"
  shows "a ! nat i = b ! nat (i - (x - y))"
proof -
  let ?n = "lcp (drop (nat x) a) (drop (nat y) b)"
  let ?j = "nat (i - x)"
  have lt: "?j < ?n" using assms by (simp add: snakeEnd_def)
  have le: "nat x \<le> length a" "nat y \<le> length b"
    using lt lcp_le [of "drop (nat x) a" "drop (nat y) b"] by (simp; linarith)+
  have "a ! (nat x + ?j) = drop (nat x) a ! ?j"
    using le by simp
  also have "\<dots> = drop (nat y) b ! ?j"
    using lt by (rule lcp_nth)
  also have "\<dots> = b ! (nat y + ?j)"
    using le by simp
  finally have "a ! (nat x + ?j) = b ! (nat y + ?j)" .
  moreover have "nat x + ?j = nat i" "nat y + ?j = nat (i - (x - y))"
    using assms by linarith+
  ultimately show ?thesis by simp
qed

lemma snakeEnd_maximal:
  assumes "0 \<le> x" "0 \<le> y" "e = snakeEnd a b x y"
  shows "\<not> (e < int (length a) \<and> e - (x - y) < int (length b) \<and> a ! nat e = b ! nat (e - (x - y)))"
proof
  let ?n = "lcp (drop (nat x) a) (drop (nat y) b)"
  assume A: "e < int (length a) \<and> e - (x - y) < int (length b) \<and> a ! nat e = b ! nat (e - (x - y))"
  have e: "e = x + int ?n" by (simp add: assms(3) snakeEnd_def)
  have "int ?n < int (length a) - x" "int ?n < int (length b) - y"
    using A e by linarith+
  then have l: "?n < length (drop (nat x) a)" "?n < length (drop (nat y) b)"
    using assms(1,2) by simp_all
  from lcp_maximal [OF l] have "drop (nat x) a ! ?n \<noteq> drop (nat y) b ! ?n" .
  moreover have n: "nat x + ?n = nat e" "nat y + ?n = nat (e - (x - y))"
    using assms(1,2) e by linarith+
  moreover have "nat x \<le> length a" "nat y \<le> length b"
    using l by simp_all
  ultimately have "a ! (nat x + ?n) \<noteq> b ! (nat y + ?n)"
    by (simp add: nth_drop)
  with n A show False by simp
qed

subsection \<open>The values of the forward pass\<close>

lemma onRound_0 [simp]: "onRound 0 k \<longleftrightarrow> k = 0"
  by (auto simp: onRound_def)

lemma onRound_pred:
  assumes "onRound (Suc d) k"
  shows "k \<noteq> - int (Suc d) \<Longrightarrow> onRound d (k - 1)" "k \<noteq> int (Suc d) \<Longrightarrow> onRound d (k + 1)"
proof -
  from assms have r: "- int d - 1 \<le> k" "k \<le> int d + 1" "even (int d + 1 - k)"
    by (simp_all add: onRound_def)
  have e1: "even (int d - (k - 1))"
  proof -
    have "int d - (k - 1) = int d + 1 - k" by simp
    with r(3) show ?thesis by (simp only:)
  qed
  have e2: "even (int d - (k + 1))"
  proof -
    have "int d + 1 - k = (int d - (k + 1)) + 2" by simp
    with r(3) have "even ((int d - (k + 1)) + 2)" by (simp only:)
    then show ?thesis by (simp only: even_add even_numeral simp_thms)
  qed
  have ne: "k \<noteq> - int d" "k \<noteq> int d"
  proof -
    show "k \<noteq> - int d"
    proof
      assume "k = - int d"
      with r(3) have "even (2 * int d + 1)" by (simp add: algebra_simps)
      then show False by simp
    qed
    show "k \<noteq> int d"
    proof
      assume "k = int d"
      with r(3) show False by simp
    qed
  qed
  show "onRound d (k - 1)" if "k \<noteq> - int (Suc d)"
    unfolding onRound_def using that r ne(1) e1 by (intro conjI) linarith+
  show "onRound d (k + 1)" if "k \<noteq> int (Suc d)"
    unfolding onRound_def using that r ne(2) e2 by (intro conjI) linarith+
qed

lemma onRound_succ: "onRound d k \<Longrightarrow> onRound (Suc d) (k + 1)" "onRound d k \<Longrightarrow> onRound (Suc d) (k - 1)"
proof -
  assume on: "onRound d k"
  then have r: "- int d \<le> k" "k \<le> int d" "even (int d - k)"
    by (simp_all add: onRound_def)
  have "int (Suc d) - (k + 1) = int d - k" "int (Suc d) - (k - 1) = (int d - k) + 2" by simp_all
  with r(3) have "even (int (Suc d) - (k + 1))" "even (int (Suc d) - (k - 1))"
    by (simp_all only: even_add even_numeral simp_thms)
  with r show "onRound (Suc d) (k + 1)" "onRound (Suc d) (k - 1)"
    unfolding onRound_def by simp_all
qed

lemma startX_Suc_down:
  "k = - int (Suc d) \<or> (k \<noteq> int (Suc d) \<and> Fm a b d (k - 1) < Fm a b d (k + 1)) \<Longrightarrow>
   startX a b (Suc d) k = Fm a b d (k + 1)"
  by (auto simp: startX_def)

lemma startX_Suc_right:
  "\<not> (k = - int (Suc d) \<or> (k \<noteq> int (Suc d) \<and> Fm a b d (k - 1) < Fm a b d (k + 1))) \<Longrightarrow>
   startX a b (Suc d) k = Fm a b d (k - 1) + 1"
  by (auto simp: startX_def)

lemma Fm_startX: "Fm a b d k = snakeEnd a b (startX a b d k) (startX a b d k - k)"
  by (cases d) (simp_all add: startX_def Let_def)

lemma Fm_bounds: "onRound d k \<Longrightarrow> 0 \<le> startX a b d k \<and> k \<le> startX a b d k \<and> 0 \<le> Fm a b d k \<and> k \<le> Fm a b d k"
proof (induction d arbitrary: k)
  case 0
  then show ?case
    using snakeEnd_ge [of 0 a b 0] by (simp add: startX_def)
next
  case (Suc d)
  note p = onRound_pred [OF Suc.prems]
  have st: "0 \<le> startX a b (Suc d) k \<and> k \<le> startX a b (Suc d) k"
  proof (cases "k = - int (Suc d) \<or> (k \<noteq> int (Suc d) \<and> Fm a b d (k - 1) < Fm a b d (k + 1))")
    case True
    then have "k \<noteq> int (Suc d)" by auto
    from Suc.IH [OF p(2) [OF this]] show ?thesis
      by (simp add: startX_Suc_down [OF True])
  next
    case False
    then have "k \<noteq> - int (Suc d)" by auto
    from Suc.IH [OF p(1) [OF this]] show ?thesis
      by (simp add: startX_Suc_right [OF False])
  qed
  moreover have "startX a b (Suc d) k \<le> Fm a b (Suc d) k"
    by (subst Fm_startX) (rule snakeEnd_ge)
  ultimately show ?case by linarith
qed

lemma reach_nonneg: "reach a b d x y \<Longrightarrow> 0 \<le> x \<and> 0 \<le> y"
  by (induction rule: reach.induct) auto

lemma reach_diags:
  assumes "reach a b d x y"
  shows "n \<le> lcp (drop (nat x) a) (drop (nat y) b) \<Longrightarrow> reach a b d (x + int n) (y + int n)"
proof (induction n)
  case 0
  with assms show ?case by simp
next
  case (Suc n)
  note nn = reach_nonneg [OF assms]
  let ?l = "lcp (drop (nat x) a) (drop (nat y) b)"
  from Suc have r: "reach a b d (x + int n) (y + int n)" by simp
  have lt: "x + int n < snakeEnd a b x y" using Suc.prems by (simp add: snakeEnd_def)
  have "a ! nat (x + int n) = b ! nat (x + int n - (x - y))"
    using nn lt by (intro snakeEnd_eq) auto
  then have eq: "a ! nat (x + int n) = b ! nat (y + int n)" by (simp add: algebra_simps)
  have "?l \<le> length a - nat x" "?l \<le> length b - nat y"
    using lcp_le [of "drop (nat x) a" "drop (nat y) b"] by simp_all
  with Suc.prems nn have b: "x + int n < int (length a)" "y + int n < int (length b)"
    by linarith+
  from reach.diag [OF r _ _ b eq] nn show ?case
    by (simp add: algebra_simps)
qed

lemma reach_snake:
  "reach a b d x y \<Longrightarrow> reach a b d (snakeEnd a b x y) (snakeEnd a b x y - (x - y))"
  using reach_diags [of a b d x y "lcp (drop (nat x) a) (drop (nat y) b)"]
  by (simp add: snakeEnd_def algebra_simps)

lemma Fm_reach: "onRound d k \<Longrightarrow> reach a b d (Fm a b d k) (Fm a b d k - k)"
proof (induction d arbitrary: k)
  case 0
  then show ?case
    using reach_snake [OF reach.origin, of a b] by simp
next
  case (Suc d)
  note p = onRound_pred [OF Suc.prems]
  let ?st = "startX a b (Suc d) k"
  have "reach a b (Suc d) ?st (?st - k)"
  proof (cases "k = - int (Suc d) \<or> (k \<noteq> int (Suc d) \<and> Fm a b d (k - 1) < Fm a b d (k + 1))")
    case True
    then have "k \<noteq> int (Suc d)" by auto
    have "Fm a b d (k + 1) - (k + 1) + 1 = Fm a b d (k + 1) - k" by simp
    with reach.down [OF Suc.IH [OF p(2) [OF \<open>k \<noteq> int (Suc d)\<close>]]] show ?thesis
      by (simp only: startX_Suc_down [OF True])
  next
    case False
    then have "k \<noteq> - int (Suc d)" by auto
    have "Fm a b d (k - 1) - (k - 1) = Fm a b d (k - 1) + 1 - k" by simp
    with reach.right [OF Suc.IH [OF p(1) [OF \<open>k \<noteq> - int (Suc d)\<close>]]] show ?thesis
      by (simp only: startX_Suc_right [OF False])
  qed
  from reach_snake [OF this] have "reach a b (Suc d) (snakeEnd a b ?st (?st - k)) (snakeEnd a b ?st (?st - k) - k)"
    by simp
  then show ?case
    by (simp only: Fm_startX [symmetric])
qed

lemma Fm_dominates: "reach a b d x y \<Longrightarrow> onRound d (x - y) \<and> x \<le> Fm a b d (x - y)"
proof (induction rule: reach.induct)
  case origin
  then show ?case using snakeEnd_ge [of 0 a b 0] by simp
next
  case (diag d x y)
  let ?k = "x - y"
  let ?st = "startX a b d ?k"
  from diag.IH have on: "onRound d ?k" and le: "x \<le> Fm a b d ?k" by simp_all
  have "Fm a b d ?k \<noteq> x"
  proof
    assume eq: "Fm a b d ?k = x"
    from Fm_bounds [OF on, of a b] have st: "0 \<le> ?st" "0 \<le> ?st - ?k" by simp_all
    from snakeEnd_maximal [OF st, of x a b] eq diag.hyps
    show False by (simp add: Fm_startX [symmetric])
  qed
  with le on show ?case by simp
next
  case (right d x y)
  define k where "k = x - y"
  define k' where "k' = x + 1 - y"
  have kk: "k' - 1 = k" "k' + 1 = k + 2" "k' = k + 1" by (simp_all add: k_def k'_def)
  from right.IH have on: "onRound d k" and le: "x \<le> Fm a b d k" by (simp_all add: k_def)
  have k: "- int d \<le> k" using on by (simp add: onRound_def)
  have on': "onRound (Suc d) k'" using onRound_succ(1) [OF on] by (simp only: kk)
  have "x + 1 \<le> startX a b (Suc d) k'"
  proof (cases "k' = - int (Suc d) \<or> (k' \<noteq> int (Suc d) \<and> Fm a b d (k' - 1) < Fm a b d (k' + 1))")
    case True
    with k kk have "Fm a b d k < Fm a b d (k' + 1)" by auto
    with le have "x + 1 \<le> Fm a b d (k' + 1)" by linarith
    then show ?thesis by (simp only: startX_Suc_down [OF True])
  next
    case False
    from le have "x + 1 \<le> Fm a b d (k' - 1) + 1" by (simp add: kk)
    then show ?thesis by (simp only: startX_Suc_right [OF False])
  qed
  also have "\<dots> \<le> Fm a b (Suc d) k'"
    by (subst Fm_startX) (rule snakeEnd_ge)
  finally have "x + 1 \<le> Fm a b (Suc d) k'" .
  with on' show ?case by (simp only: k'_def simp_thms)
next
  case (down d x y)
  define k where "k = x - y"
  define k' where "k' = x - (y + 1)"
  have kk: "k' + 1 = k" "k' - 1 = k - 2" "k' = k - 1" by (simp_all add: k_def k'_def)
  from down.IH have on: "onRound d k" and le: "x \<le> Fm a b d k" by (simp_all add: k_def)
  have k: "k \<le> int d" using on by (simp add: onRound_def)
  have on': "onRound (Suc d) k'" using onRound_succ(2) [OF on] by (simp only: kk)
  have "x \<le> startX a b (Suc d) k'"
  proof (cases "k' = - int (Suc d) \<or> (k' \<noteq> int (Suc d) \<and> Fm a b d (k' - 1) < Fm a b d (k' + 1))")
    case True
    from le have "x \<le> Fm a b d (k' + 1)" by (simp add: kk)
    then show ?thesis by (simp only: startX_Suc_down [OF True])
  next
    case False
    with k kk have "\<not> Fm a b d (k' - 1) < Fm a b d (k' + 1)" by auto
    with le have "x \<le> Fm a b d (k' - 1) + 1" by (simp add: kk)
    then show ?thesis by (simp only: startX_Suc_right [OF False])
  qed
  also have "\<dots> \<le> Fm a b (Suc d) k'"
    by (subst Fm_startX) (rule snakeEnd_ge)
  finally have "x \<le> Fm a b (Suc d) k'" .
  with on' show ?case by (simp only: k'_def simp_thms)
qed

subsection \<open>The end is found\<close>

lemma reach_rights: "reach a b d x y \<Longrightarrow> reach a b (d + n) (x + int n) y"
proof (induction n)
  case 0
  then show ?case by simp
next
  case (Suc n)
  from reach.right [OF Suc.IH [OF Suc.prems]] show ?case by (simp add: algebra_simps)
qed

lemma reach_downs: "reach a b d x y \<Longrightarrow> reach a b (d + n) x (y + int n)"
proof (induction n)
  case 0
  then show ?case by simp
next
  case (Suc n)
  from reach.down [OF Suc.IH [OF Suc.prems]] show ?case by (simp add: algebra_simps)
qed

lemma reach_end: "reach a b (length a + length b) (int (length a)) (int (length b))"
  using reach_downs [OF reach_rights [OF reach.origin, of a b "length a"], of "length b"] by simp

lemma reach_outside:
  assumes "reach a b d x y" "int (length a) \<le> x \<or> int (length b) \<le> y"
  shows "\<exists>d'. int d' = int d + int (length a) + int (length b) - x - y \<and>
           reach a b d' (int (length a)) (int (length b))"
  using assms
proof (induction rule: reach.induct)
  case origin
  then have "length a = 0 \<or> length b = 0" by auto
  then show ?case
  proof
    assume "length a = 0"
    with reach_downs [OF reach.origin, of a b "length b"] show ?thesis by auto
  next
    assume "length b = 0"
    with reach_rights [OF reach.origin, of a b "length a"] show ?thesis by auto
  qed
next
  case (diag d x y)
  from reach.diag [OF diag.hyps] have r: "reach a b d (x + 1) (y + 1)" .
  from diag.prems diag.hyps consider "x + 1 = int (length a)" | "y + 1 = int (length b)" by linarith
  then show ?case
  proof cases
    case 1
    let ?n = "nat (int (length b) - (y + 1))"
    from reach_downs [OF r, of ?n] 1 diag.hyps
    have "reach a b (d + ?n) (int (length a)) (int (length b))" by simp
    moreover have "int (d + ?n) = int d + int (length a) + int (length b) - (x + 1) - (y + 1)"
      using 1 diag.hyps by simp
    ultimately show ?thesis by blast
  next
    case 2
    let ?n = "nat (int (length a) - (x + 1))"
    from reach_rights [OF r, of ?n] 2 diag.hyps
    have "reach a b (d + ?n) (int (length a)) (int (length b))" by simp
    moreover have "int (d + ?n) = int d + int (length a) + int (length b) - (x + 1) - (y + 1)"
      using 2 diag.hyps by simp
    ultimately show ?thesis by blast
  qed
next
  case (right d x y)
  show ?case
  proof (cases "int (length a) \<le> x \<or> int (length b) \<le> y")
    case True
    from right.IH [OF this] show ?thesis by (auto simp: algebra_simps)
  next
    case False
    with right.prems have x: "x + 1 = int (length a)" and y: "y < int (length b)" by auto
    let ?n = "nat (int (length b) - y)"
    from reach_downs [OF reach.right [OF right.hyps], of ?n] x y
    have "reach a b (Suc d + ?n) (int (length a)) (int (length b))" by simp
    moreover have "int (Suc d + ?n) = int (Suc d) + int (length a) + int (length b) - (x + 1) - y"
      using x y by simp
    ultimately show ?thesis by blast
  qed
next
  case (down d x y)
  show ?case
  proof (cases "int (length a) \<le> x \<or> int (length b) \<le> y")
    case True
    from down.IH [OF this] show ?thesis by (auto simp: algebra_simps)
  next
    case False
    with down.prems have y: "y + 1 = int (length b)" and x: "x < int (length a)" by auto
    let ?n = "nat (int (length a) - x)"
    from reach_rights [OF reach.down [OF down.hyps], of ?n] x y
    have "reach a b (Suc d + ?n) (int (length a)) (int (length b))" by simp
    moreover have "int (Suc d + ?n) = int (Suc d) + int (length a) + int (length b) - x - (y + 1)"
      using x y by simp
    ultimately show ?thesis by blast
  qed
qed

lemma found_exists:
  "\<exists>D. D \<le> length a + length b \<and> foundAt a b D \<and> (\<forall>d<D. \<not> foundAt a b d)"
proof -
  let ?M = "int (length a)" and ?N = "int (length b)"
  let ?k = "?M - ?N"
  let ?P = "\<lambda>d. onRound d ?k \<and> ?M \<le> Fm a b d ?k"
  have top: "?P (length a + length b)"
    using Fm_dominates [OF reach_end, of a b] by simp
  define D where "D = (LEAST d. ?P d)"
  have PD: "?P D" unfolding D_def using top by (rule LeastI)
  have least: "\<not> ?P d" if "d < D" for d
    using that not_less_Least unfolding D_def by blast
  have "D \<le> length a + length b"
    unfolding D_def using top by (rule Least_le)
  moreover have "Fm a b D ?k = ?M"
  proof (rule ccontr)
    assume "Fm a b D ?k \<noteq> ?M"
    with PD have gt: "?M < Fm a b D ?k" by simp
    let ?x = "Fm a b D ?k"
    from PD have r: "reach a b D ?x (?x - ?k)" by (intro Fm_reach) simp
    from reach_outside [OF r] gt
    obtain d' where d': "int d' = int D + ?M + ?N - ?x - (?x - ?k)" "reach a b d' ?M ?N"
      by auto
    from d'(1) gt have "d' < D" by linarith
    moreover from Fm_dominates [OF d'(2)] have "?P d'" by simp
    ultimately show False using least by blast
  qed
  moreover have "\<not> foundAt a b d" if "d < D" for d
    using least [OF that] by (auto simp: foundAt_def)
  ultimately show ?thesis
    using PD by (auto simp: foundAt_def)
qed

subsection \<open>The forward pass computes these values\<close>

declare slide.simps [simp del] kLoop.simps [simp del] dLoop.simps [simp del]

lemma onRound_index:
  assumes "onRound d k" "int d \<le> off"
  shows "0 \<le> k + off" "k + off < 2 * off + 1"
  using assms by (simp_all add: onRound_def)

lemma onRound_neq: "onRound d k \<Longrightarrow> onRound (Suc d) j \<Longrightarrow> j \<noteq> k"
proof
  assume a: "onRound d k" "onRound (Suc d) j" "j = k"
  then have "even (int d - k)" "even (int d + 1 - k)" by (simp_all add: onRound_def)
  then show False by simp
qed

lemma goesDown_prevOK:
  assumes "prevOK a b off V d" "onRound d k" "int d \<le> off" "1 \<le> off"
  shows "goesDown V k (int d) off =
     Inr (d = 0 \<or> k = - int d \<or> (k \<noteq> int d \<and> Fm a b (d - 1) (k - 1) < Fm a b (d - 1) (k + 1)))"
proof (cases d)
  case 0
  with assms(2) show ?thesis by (simp add: goesDown_def)
next
  case (Suc d')
  show ?thesis
  proof (cases "k = - int d \<or> k = int d")
    case True
    then show ?thesis using Suc by (auto simp: goesDown_def)
  next
    case False
    with assms(2) Suc have on: "onRound d' (k - 1)" "onRound d' (k + 1)"
      using onRound_pred [of d' k] by auto
    note i1 = onRound_index [OF on(1), of off] and i2 = onRound_index [OF on(2), of off]
    from assms(1) have len: "int (length V) = 2 * off + 1"
      and v: "\<And>j. onRound d' j \<Longrightarrow> V ! nat (j + off) = Fm a b d' j"
      using Suc by (auto simp: prevOK_def)
    have "index V (k - 1 + off) = Inr (Fm a b d' (k - 1))" "index V (k + 1 + off) = Inr (Fm a b d' (k + 1))"
      using i1 i2 assms(3) Suc len v [OF on(1)] v [OF on(2)] by (simp_all add: index_def)
    with False show ?thesis using Suc by (simp add: goesDown_def)
  qed
qed

lemma start_prevOK:
  assumes "prevOK a b off V d" "onRound d k" "int d \<le> off" "1 \<le> off"
  defines "down \<equiv> (d = 0 \<or> k = - int d \<or> (k \<noteq> int d \<and> Fm a b (d - 1) (k - 1) < Fm a b (d - 1) (k + 1)))"
  shows "(if down then index V (k + 1 + off)
          else (case index V (k - 1 + off) of Inl p \<Rightarrow> Inl p | Inr v \<Rightarrow> Inr (v + 1))) =
         Inr (startX a b d k)"
proof (cases d)
  case 0
  from assms(1) have "int (length V) = 2 * off + 1" "V ! nat (1 + off) = 0"
    using 0 by (simp_all add: prevOK_def)
  with assms(2,4) 0 show ?thesis
    by (simp add: down_def startX_def index_def)
next
  case (Suc d')
  from assms(1) have len: "int (length V) = 2 * off + 1"
    and v: "\<And>j. onRound d' j \<Longrightarrow> V ! nat (j + off) = Fm a b d' j"
    using Suc by (auto simp: prevOK_def)
  show ?thesis
  proof (cases down)
    case True
    then have c: "k = - int (Suc d') \<or> (k \<noteq> int (Suc d') \<and> Fm a b d' (k - 1) < Fm a b d' (k + 1))"
      using Suc by (simp add: down_def)
    then have "k \<noteq> int (Suc d')" by auto
    with assms(2) Suc have on: "onRound d' (k + 1)" using onRound_pred(2) [of d' k] by simp
    note i = onRound_index [OF on, of off]
    have "index V (k + 1 + off) = Inr (Fm a b d' (k + 1))"
      using i assms(3) Suc len v [OF on] by (simp add: index_def)
    with True show ?thesis
      using Suc startX_Suc_down [OF c] by simp
  next
    case False
    then have c: "\<not> (k = - int (Suc d') \<or> (k \<noteq> int (Suc d') \<and> Fm a b d' (k - 1) < Fm a b d' (k + 1)))"
      using Suc by (simp add: down_def)
    then have "k \<noteq> - int (Suc d')" by auto
    with assms(2) Suc have on: "onRound d' (k - 1)" using onRound_pred(1) [of d' k] by simp
    note i = onRound_index [OF on, of off]
    have "index V (k - 1 + off) = Inr (Fm a b d' (k - 1))"
      using i assms(3) Suc len v [OF on] by (simp add: index_def)
    with False show ?thesis
      using Suc startX_Suc_right [OF c] by simp
  qed
qed

lemma slide_Fm:
  assumes "onRound d k"
  shows "slide a b (startX a b d k) (startX a b d k - k) = Inr (Fm a b d k, Fm a b d k - k)"
proof -
  from Fm_bounds [OF assms, of a b] have "0 \<le> startX a b d k" "0 \<le> startX a b d k - k" by simp_all
  from slide_snakeEnd [OF this, of a b] show ?thesis
    by (simp add: Fm_startX [symmetric])
qed

lemma prevOK_update:
  assumes "prevOK a b off V d" "onRound d k" "int d \<le> off"
  shows "prevOK a b off (V[nat (k + off) := v]) d"
proof -
  have "V[nat (k + off) := v] ! nat (j + off) = V ! nat (j + off)"
    if "0 < d" "onRound (d - 1) j" for j
  proof -
    from that obtain d' where d: "d = Suc d'" by (cases d) auto
    with that assms(2) have "k \<noteq> j" using onRound_neq [of d' j k] by auto
    moreover have "0 \<le> j + off" "0 \<le> k + off"
      using that assms d by (simp_all add: onRound_def)
    ultimately have "nat (k + off) \<noteq> nat (j + off)" by linarith
    then show ?thesis by simp
  qed
  moreover have "V[nat (k + off) := v] ! nat (1 + off) = V ! nat (1 + off)" if "d = 0"
  proof -
    from that assms(2,3) have "k = 0" "0 \<le> off" by simp_all
    then have "nat (k + off) \<noteq> nat (1 + off)" by linarith
    then show ?thesis by simp
  qed
  ultimately show ?thesis
    using assms(1) by (simp add: prevOK_def)
qed

lemma curOK_update:
  assumes "curOK a b off V d k" "onRound d k" "int d \<le> off" "int (length V) = 2 * off + 1"
  shows "curOK a b off (V[nat (k + off) := Fm a b d k]) d (k + 2)"
  unfolding curOK_def
proof (intro allI impI)
  fix j assume j: "onRound d j \<and> j < k + 2"
  note ij = onRound_index [OF conjunct1 [OF j] assms(3)] and ik = onRound_index [OF assms(2,3)]
  show "V[nat (k + off) := Fm a b d k] ! nat (j + off) = Fm a b d j"
  proof (cases "j = k")
    case True
    with ik assms(4) show ?thesis by simp
  next
    case False
    have "even (j - k)"
    proof -
      from j assms(2) have "even (int d - j)" "even (int d - k)" by (simp_all add: onRound_def)
      then have "even ((int d - k) - (int d - j))" by simp
      then show ?thesis by simp
    qed
    moreover from j have "j < k + 2" by simp
    ultimately have "j < k" using False by presburger
    with assms(1) j have "V ! nat (j + off) = Fm a b d j" by (simp add: curOK_def)
    moreover have "nat (k + off) \<noteq> nat (j + off)" using False ij ik by linarith
    ultimately show ?thesis by simp
  qed
qed

lemma kLoop_step:
  assumes "prevOK a b off V d" "onRound d k" "int d \<le> off" "1 \<le> off"
  shows "kLoop a b (int d) off k V =
     (if Fm a b d k = int (length a) \<and> Fm a b d k - k = int (length b)
      then Inr (V[nat (k + off) := Fm a b d k], True)
      else kLoop a b (int d) off (k + 2) (V[nat (k + off) := Fm a b d k]))"
proof -
  from assms(1) have len: "int (length V) = 2 * off + 1" by (simp add: prevOK_def)
  note ik = onRound_index [OF assms(2,3)]
  have kd: "k \<le> int d" using assms(2) by (simp add: onRound_def)
  have st: "store V (k + off) (Fm a b d k) = Inr (V[nat (k + off) := Fm a b d k])"
    using ik len by (simp add: store_def)
  show ?thesis
    by (subst kLoop.simps)
       (simp only: kd if_True goesDown_prevOK [OF assms] start_prevOK [OF assms]
          slide_Fm [OF assms(2)] st sum.case prod.case)
qed

lemma kLoop_correct:
  assumes "prevOK a b off V d" "curOK a b off V d k" "int d \<le> off" "1 \<le> off"
    and "onRound d k \<or> k = int d + 2"
  shows "\<exists>V'. kLoop a b (int d) off k V =
            Inr (V', foundAt a b d \<and> k \<le> int (length a) - int (length b)) \<and>
          prevOK a b off V' d \<and>
          (\<not> (foundAt a b d \<and> k \<le> int (length a) - int (length b)) \<longrightarrow> curOK a b off V' d (int d + 2))"
  using assms
proof (induction "nat (int d + 2 - k)" arbitrary: k V rule: less_induct)
  case less
  let ?ks = "int (length a) - int (length b)"
  show ?case
  proof (cases "onRound d k")
    case False
    with less.prems(5) have k: "k = int d + 2" by simp
    have "\<not> (foundAt a b d \<and> k \<le> ?ks)"
      using k by (auto simp: foundAt_def onRound_def)
    moreover have "kLoop a b (int d) off k V = Inr (V, False)"
      using k by (subst kLoop.simps) simp
    ultimately show ?thesis using less.prems k by auto
  next
    case True
    let ?V = "V[nat (k + off) := Fm a b d k]"
    from less.prems(1) have len: "int (length V) = 2 * off + 1" by (simp add: prevOK_def)
    note step = kLoop_step [OF less.prems(1) True less.prems(3,4)]
    have pV: "prevOK a b off ?V d"
      using less.prems(1) True less.prems(3) by (rule prevOK_update)
    have cV: "curOK a b off ?V d (k + 2)"
      using less.prems(2) True less.prems(3) len by (rule curOK_update)
    show ?thesis
    proof (cases "Fm a b d k = int (length a) \<and> Fm a b d k - k = int (length b)")
      case found: True
      then have "k = ?ks" by linarith
      with found True have "foundAt a b d \<and> k \<le> ?ks" by (simp add: foundAt_def)
      with step found pV show ?thesis by auto
    next
      case nf: False
      have kd: "k \<le> int d" using True by (simp add: onRound_def)
      have next_pos: "onRound d (k + 2) \<or> k + 2 = int d + 2"
      proof (cases "k = int d")
        case True
        then show ?thesis by simp
      next
        case False
        have "even (int d - k)" using True by (simp add: onRound_def)
        with False kd have "k + 2 \<le> int d" by presburger
        moreover have "even (int d - (k + 2))"
        proof -
          have "int d - k = (int d - (k + 2)) + 2" by simp
          with \<open>even (int d - k)\<close> have "even ((int d - (k + 2)) + 2)" by (simp only:)
          then show ?thesis by (simp only: even_add even_numeral simp_thms)
        qed
        ultimately show ?thesis using True by (simp add: onRound_def)
      qed
      have m: "nat (int d + 2 - (k + 2)) < nat (int d + 2 - k)" using kd by linarith
      from less.hyps [OF m pV cV less.prems(3,4) next_pos]
      obtain V' where V': "kLoop a b (int d) off (k + 2) ?V = Inr (V', foundAt a b d \<and> k + 2 \<le> ?ks)"
        "prevOK a b off V' d"
        "\<not> (foundAt a b d \<and> k + 2 \<le> ?ks) \<longrightarrow> curOK a b off V' d (int d + 2)"
        by blast
      have "(foundAt a b d \<and> k + 2 \<le> ?ks) = (foundAt a b d \<and> k \<le> ?ks)"
      proof (cases "foundAt a b d \<and> k \<le> ?ks")
        case False
        then show ?thesis by auto
      next
        case yes: True
        then have f: "onRound d ?ks" "Fm a b d ?ks = int (length a)" by (simp_all add: foundAt_def)
        with nf have "k \<noteq> ?ks" by auto
        moreover have "even (?ks - k)"
        proof -
          from f(1) True have "even (int d - ?ks)" "even (int d - k)" by (simp_all add: onRound_def)
          then have "even ((int d - k) - (int d - ?ks))" by simp
          then show ?thesis by simp
        qed
        moreover from yes have "k \<le> ?ks" by simp
        ultimately have "k + 2 \<le> ?ks" by presburger
        with yes show ?thesis by simp
      qed
      with V' step nf show ?thesis by auto
    qed
  qed
qed

lemma prevOK_Suc:
  assumes "prevOK a b off V d" "curOK a b off V d (int d + 2)"
  shows "prevOK a b off V (Suc d)"
  using assms by (auto simp: prevOK_def curOK_def onRound_def)

lemma dLoop_correct:
  assumes off: "off = int (length b) + int (length a)" "1 \<le> off"
    and D: "foundAt a b D" "\<forall>d<D. \<not> foundAt a b d" "int D \<le> off" "d \<le> D"
    and V: "prevOK a b off V d"
    and tr: "int (length trace) = off + 1" "\<forall>i<d. prevOK a b off (trace ! i) i"
      "\<forall>i. d \<le> i \<and> int i \<le> off \<longrightarrow> trace ! i = []"
  shows "\<exists>trace'. dLoop a b (int d) V trace = Inr (trace', off) \<and> traceOK a b off trace' D"
  using D(4) V tr
proof (induction "D - d" arbitrary: d V trace rule: less_induct)
  case less
  have dle: "int d \<le> off" using less.prems(1) D(3) by simp
  have c0: "curOK a b off V d (- int d)"
    by (auto simp: curOK_def onRound_def)
  have pos: "onRound d (- int d) \<or> - int d = int d + 2"
    by (simp add: onRound_def)
  from kLoop_correct [OF less.prems(2) c0 dle off(2) pos]
  obtain V' where V': "kLoop a b (int d) off (- int d) V =
        Inr (V', foundAt a b d \<and> - int d \<le> int (length a) - int (length b))"
     "prevOK a b off V' d"
     "\<not> (foundAt a b d \<and> - int d \<le> int (length a) - int (length b)) \<longrightarrow> curOK a b off V' d (int d + 2)"
    by blast
  have fnd: "(foundAt a b d \<and> - int d \<le> int (length a) - int (length b)) = foundAt a b d"
    by (auto simp: foundAt_def onRound_def)
  let ?tr = "trace[d := V']"
  have st: "store trace (int d) V' = Inr ?tr"
    using dle less.prems(3) by (simp add: store_def)
  have tr1: "int (length ?tr) = off + 1" using less.prems(3) by simp
  have tr2: "\<forall>i<Suc d. prevOK a b off (?tr ! i) i"
  proof (intro allI impI)
    fix i assume "i < Suc d"
    moreover have "d < length trace" using dle less.prems(3) by linarith
    ultimately show "prevOK a b off (?tr ! i) i"
      using less.prems(4) V'(2) by (cases "i = d") auto
  qed
  have tr3: "\<forall>i. Suc d \<le> i \<and> int i \<le> off \<longrightarrow> ?tr ! i = []"
    using less.prems(5) by auto
  have unfold: "dLoop a b (int d) V trace =
      (if foundAt a b d then Inr (?tr, off) else dLoop a b (int d + 1) V' ?tr)"
    using dle by (subst dLoop.simps) (simp add: off(1) [symmetric] V'(1) fnd st)
  show ?case
  proof (cases "foundAt a b d")
    case True
    with D(2) less.prems(1) have "d = D" by (meson le_neq_implies_less)
    with tr1 tr2 tr3 have "traceOK a b off ?tr D"
      by (auto simp: traceOK_def)
    with unfold True show ?thesis by simp
  next
    case False
    with D(1) less.prems(1) have lt: "d < D" by (cases "d = D") auto
    then have m: "D - Suc d < D - d" and le: "Suc d \<le> D" by simp_all
    from V'(3) False fnd have "curOK a b off V' d (int d + 2)" by simp
    with V'(2) have p: "prevOK a b off V' (Suc d)" by (rule prevOK_Suc)
    from less.hyps [OF m le p tr1 tr2 tr3]
    obtain trace' where "dLoop a b (int (Suc d)) V' ?tr = Inr (trace', off)" "traceOK a b off trace' D"
      by blast
    with unfold False show ?thesis by (simp add: add.commute)
  qed
qed

lemma shortestEditSequence_correct:
  assumes "0 < length a + length b"
  shows "\<exists>trace D. shortestEditSequence a b = Inr (trace, int (length b) + int (length a)) \<and>
           int D \<le> int (length b) + int (length a) \<and> foundAt a b D \<and>
           traceOK a b (int (length b) + int (length a)) trace D"
proof -
  let ?off = "int (length b) + int (length a)"
  from found_exists [of a b]
  obtain D where D: "D \<le> length a + length b" "foundAt a b D" "\<forall>d<D. \<not> foundAt a b d" by blast
  let ?V = "replicate (2 * (length b + length a) + 1) (0::int)"
  let ?tr = "replicate (length b + length a + 1) ([]::int list)"
  have off: "1 \<le> ?off" using assms by linarith
  have V: "prevOK a b ?off ?V 0"
    using off by (simp add: prevOK_def)
  have tr: "?tr ! i = []" if "int i \<le> ?off" for i
  proof -
    from that have "i < length b + length a + 1" by linarith
    then show ?thesis by (simp only: nth_replicate)
  qed
  have D': "int D \<le> ?off" using D(1) by linarith
  have "\<exists>trace'. dLoop a b (int 0) ?V ?tr = Inr (trace', ?off) \<and> traceOK a b ?off trace' D"
  proof (rule dLoop_correct [OF refl off D(2,3) D' _ V])
    show "0 \<le> D" by simp
    show "int (length ?tr) = ?off + 1" by simp
    show "\<forall>i<0. prevOK a b ?off (?tr ! i) i" by simp
    show "\<forall>i. 0 \<le> i \<and> int i \<le> ?off \<longrightarrow> ?tr ! i = []" using tr by blast
  qed
  then obtain trace' where "dLoop a b 0 ?V ?tr = Inr (trace', ?off)" "traceOK a b ?off trace' D"
    by auto
  then have "shortestEditSequence a b = Inr (trace', ?off) \<and> int D \<le> ?off \<and> foundAt a b D \<and>
      traceOK a b ?off trace' D"
    using D(2) D' by (simp add: shortestEditSequence_def Let_def)
  then show ?thesis by blast
qed

subsection \<open>backtrack returns a path\<close>

declare backtrackLoop.simps [simp del] Fm.simps [simp del]

lemma eqRun_snake:
  assumes "0 \<le> x" "0 \<le> y"
  shows "eqRun a b x y (snakeEnd a b x y - x)"
proof -
  let ?n = "lcp (drop (nat x) a) (drop (nat y) b)"
  have n: "nat (snakeEnd a b x y - x) = ?n" by (simp add: snakeEnd_def)
  have "take ?n (drop (nat x) a) = take ?n (drop (nat y) b)"
  proof (rule nth_equalityI)
    show "length (take ?n (drop (nat x) a)) = length (take ?n (drop (nat y) b))"
      using lcp_le [of "drop (nat x) a" "drop (nat y) b"] by simp
    fix i assume "i < length (take ?n (drop (nat x) a))"
    then have "i < ?n" by simp
    then show "take ?n (drop (nat x) a) ! i = take ?n (drop (nat y) b) ! i"
      using lcp_nth [of i "drop (nat x) a" "drop (nat y) b"] by simp
  qed
  then show ?thesis by (simp only: eqRun_def n)
qed

lemma gstep_origin:
  assumes "0 \<le> x" "0 \<le> y" "x \<le> int (length a)" "y \<le> int (length b)" "x = 0 \<or> y = 0"
  shows "gstep a b (0, 0) (x, y)"
  using assms by (auto simp: gstep_def Let_def eqRun_def min_def)

lemma gstep_first_snake:
  assumes "Fm a b 0 0 \<le> int (length a)" "Fm a b 0 0 \<le> int (length b)"
  shows "gstep a b (0, 0) (Fm a b 0 0, Fm a b 0 0)"
proof -
  have "0 \<le> Fm a b 0 0" using snakeEnd_ge [of 0 a b 0] by (simp add: Fm.simps)
  moreover have "eqRun a b 0 0 (Fm a b 0 0)"
    using eqRun_snake [of 0 0 a b] by (simp add: Fm.simps)
  ultimately show ?thesis using assms by (simp add: gstep_def Let_def)
qed

lemma gstep_round:
  assumes on: "onRound (Suc d) k" and le: "Fm a b (Suc d) k \<le> int (length a)" "Fm a b (Suc d) k - k \<le> int (length b)"
    and kp: "kPrev = (if k = - int (Suc d) \<or> (k \<noteq> int (Suc d) \<and> Fm a b d (k - 1) < Fm a b d (k + 1))
                    then k + 1 else k - 1)"
  shows "onRound d kPrev"
    and "Fm a b d kPrev \<le> int (length a)" "Fm a b d kPrev - kPrev \<le> int (length b)"
    and "gstep a b (Fm a b d kPrev, Fm a b d kPrev - kPrev) (Fm a b (Suc d) k, Fm a b (Suc d) k - k)"
proof -
  let ?c = "k = - int (Suc d) \<or> (k \<noteq> int (Suc d) \<and> Fm a b d (k - 1) < Fm a b d (k + 1))"
  let ?st = "startX a b (Suc d) k"
  let ?x = "Fm a b (Suc d) k"
  let ?x' = "Fm a b d kPrev"
  note p = onRound_pred [OF on]
  have kP: "?c \<Longrightarrow> kPrev = k + 1" "\<not> ?c \<Longrightarrow> kPrev = k - 1"
    unfolding kp by (rule if_P, assumption) (rule if_not_P, assumption)
  show on': "onRound d kPrev"
  proof (cases ?c)
    case True
    then have ne: "k \<noteq> int (Suc d)" by auto
    show ?thesis using p(2) [OF ne] by (simp only: kP(1) [OF True])
  next
    case False
    then have ne: "k \<noteq> - int (Suc d)" by auto
    show ?thesis using p(1) [OF ne] by (simp only: kP(2) [OF False])
  qed
  from Fm_bounds [OF on, of a b] have st: "0 \<le> ?st" "0 \<le> ?st - k" by simp_all
  from Fm_bounds [OF on', of a b] have x': "0 \<le> ?x'" "0 \<le> ?x' - kPrev" by simp_all
  have xs: "?x = snakeEnd a b ?st (?st - k)" by (rule Fm_startX)
  have ge: "?st \<le> ?x" unfolding xs by (rule snakeEnd_ge)
  have run: "eqRun a b ?st (?st - k) (?x - ?st)"
    unfolding xs using st by (rule eqRun_snake)
  have rel: "(?st = ?x' \<and> kPrev = k + 1) \<or> (?st = ?x' + 1 \<and> kPrev = k - 1)"
  proof (cases ?c)
    case True
    show ?thesis using startX_Suc_down [OF True] kP(1) [OF True] by simp
  next
    case False
    show ?thesis using startX_Suc_right [OF False] kP(2) [OF False] by simp
  qed
  show "?x' \<le> int (length a)" using rel ge le by auto
  show "?x' - kPrev \<le> int (length b)" using rel ge le by auto
  have t: "min (?x - ?x') ((?x - k) - (?x' - kPrev)) = ?x - ?st"
    using rel ge by auto
  have "?x - (?x - ?st) = ?st" "(?x - k) - (?x - ?st) = ?st - k" by simp_all
  with run have r: "eqRun a b (?x - (?x - ?st)) ((?x - k) - (?x - ?st)) (?x - ?st)" by (simp only:)
  have o: "?x' \<le> ?x" "?x' - kPrev \<le> ?x - k" using rel ge by auto
  show "gstep a b (?x', ?x' - kPrev) (?x, ?x - k)"
    unfolding gstep_def prod.case Let_def t
    using x' le o r by (intro conjI)
qed

lemma backtrackLoop_stop:
  "\<not> (x > 0 \<and> y > 0 \<and> d > 0) \<Longrightarrow> backtrackLoop trace off snakes x y d = Inr (snakes, x, y, d)"
  by (subst backtrackLoop.simps) auto

lemma backtrackLoop_skip:
  assumes "x > 0" "y > 0" "d > 0" "d < int (length trace)" "trace ! nat d = []"
  shows "backtrackLoop trace off snakes x y d = backtrackLoop trace off snakes x y (d - 1)"
  using assms by (subst backtrackLoop.simps) (simp add: index_def)

lemma backtrackLoop_step:
  fixes d :: nat
  assumes pos: "x > 0" "y > 0"
    and tr: "int (length trace) = off + 1" "prevOK a b off (trace ! Suc d) (Suc d)"
    and off: "int (Suc d) \<le> off" "1 \<le> off"
    and sn: "Suc d < length snakes"
    and on: "onRound (Suc d) (x - y)"
    and kp: "kPrev = (if x - y = - int (Suc d) \<or>
                        (x - y \<noteq> int (Suc d) \<and> Fm a b d (x - y - 1) < Fm a b d (x - y + 1))
                      then x - y + 1 else x - y - 1)"
  shows "backtrackLoop trace off snakes x y (int (Suc d)) =
         backtrackLoop trace off (snakes[Suc d := Some (x, y)]) (Fm a b d kPrev) (Fm a b d kPrev - kPrev) (int d)"
proof -
  let ?V = "trace ! Suc d"
  let ?k = "x - y"
  let ?c = "?k = - int (Suc d) \<or> (?k \<noteq> int (Suc d) \<and> Fm a b d (?k - 1) < Fm a b d (?k + 1))"
  have it: "index trace (int (Suc d)) = Inr ?V"
    using tr(1) off(1) by (simp add: index_def del: of_nat_Suc)
  have lenV: "int (length ?V) = 2 * off + 1" using tr(2) by (simp add: prevOK_def)
  then have nz: "length ?V \<noteq> 0" using off(2) by auto
  have st: "store snakes (int (Suc d)) (Some (x, y)) = Inr (snakes[Suc d := Some (x, y)])"
    using sn by (simp add: store_def del: of_nat_Suc)
  have gd: "goesDown ?V ?k (int (Suc d)) off = Inr ?c"
    using goesDown_prevOK [OF tr(2) on off] by simp
  have kP: "?c \<Longrightarrow> kPrev = ?k + 1" "\<not> ?c \<Longrightarrow> kPrev = ?k - 1"
    unfolding kp by (rule if_P, assumption) (rule if_not_P, assumption)
  have on': "onRound d kPrev"
  proof (cases ?c)
    case True
    then have ne: "?k \<noteq> int (Suc d)" by auto
    show ?thesis using onRound_pred(2) [OF on ne] by (simp only: kP(1) [OF True])
  next
    case False
    then have ne: "?k \<noteq> - int (Suc d)" by auto
    show ?thesis using onRound_pred(1) [OF on ne] by (simp only: kP(2) [OF False])
  qed
  have dle: "int d \<le> off" using off(1) by simp
  note i = onRound_index [OF on' dle]
  have "?V ! nat (kPrev + off) = Fm a b d kPrev"
    using tr(2) on' by (simp add: prevOK_def)
  then have iv: "index ?V (kPrev + off) = Inr (Fm a b d kPrev)"
    using i lenV by (simp add: index_def)
  have c: "x > 0 \<and> y > 0 \<and> int (Suc d) > 0" using pos by simp
  have d1: "int (Suc d) - 1 = int d" by simp
  show ?thesis
    by (subst backtrackLoop.simps)
       (simp only: c if_True it sum.case nz if_False st Let_def gd kp [symmetric] iv d1 simp_thms)
qed

lemma replicate_Suc_update:
  "(replicate (Suc d) x @ rest)[d := v] = replicate d x @ v # rest"
proof -
  have "replicate (Suc d) x @ rest = replicate d x @ (x # rest)"
    by (simp add: replicate_append_same)
  then show ?thesis by (simp add: list_update_append)
qed

lemma backtrackLoop_path:
  assumes tr: "traceOK a b off trace D" and off: "1 \<le> off" "int D \<le> off"
  shows "d \<le> D \<Longrightarrow> onRound d k \<Longrightarrow> x = Fm a b d k \<Longrightarrow>
      x \<le> int (length a) \<Longrightarrow> x - k \<le> int (length b) \<Longrightarrow> gpath a b (x, x - k) qs \<Longrightarrow>
      snakes = replicate (Suc d) None @ map Some qs @ replicate r None \<Longrightarrow>
      \<exists>snakes' x' y' d' qs'.
        backtrackLoop trace off snakes x (x - k) (int d) = Inr (snakes', x', y', int d') \<and>
        0 \<le> x' \<and> 0 \<le> y' \<and> snakes' = replicate (Suc d') None @ map Some qs' @ replicate r None \<and>
        gpath a b (x', y') qs' \<and> gstep a b (0, 0) (x', y')"
proof (induction d arbitrary: k x qs snakes)
  case 0
  then have k: "k = 0" by simp
  have stop: "backtrackLoop trace off snakes x (x - k) (int 0) = Inr (snakes, x, x - k, int 0)"
    by (rule backtrackLoop_stop) simp
  from Fm_bounds [of 0 k a b] 0 have nn: "0 \<le> x" by simp
  have "gstep a b (0, 0) (x, x - k)"
    using gstep_first_snake [of a b] 0 k by simp
  with stop nn 0 k show ?case by (intro exI [of _ snakes] exI [of _ x] exI [of _ "x - k"] exI [of _ 0] exI [of _ qs]) simp
next
  case (Suc d)
  from Fm_bounds [OF Suc.prems(2), of a b] Suc.prems(3) have nn: "0 \<le> x" "0 \<le> x - k" by simp_all
  show ?case
  proof (cases "x > 0 \<and> x - k > 0")
    case False
    have stop: "backtrackLoop trace off snakes x (x - k) (int (Suc d)) = Inr (snakes, x, x - k, int (Suc d))"
      using False by (intro backtrackLoop_stop) auto
    from False nn have "x = 0 \<or> x - k = 0" by auto
    then have "gstep a b (0, 0) (x, x - k)"
      using nn Suc.prems(4,5) by (intro gstep_origin) auto
    with stop nn Suc.prems show ?thesis
      by (intro exI [of _ snakes] exI [of _ x] exI [of _ "x - k"] exI [of _ "Suc d"] exI [of _ qs]) simp
  next
    case True
    define kPrev where "kPrev = (if x - (x - k) = - int (Suc d) \<or>
                        (x - (x - k) \<noteq> int (Suc d) \<and> Fm a b d (x - (x - k) - 1) < Fm a b d (x - (x - k) + 1))
                      then x - (x - k) + 1 else x - (x - k) - 1)"
    have kp': "kPrev = (if k = - int (Suc d) \<or> (k \<noteq> int (Suc d) \<and> Fm a b d (k - 1) < Fm a b d (k + 1))
                    then k + 1 else k - 1)"
      by (simp add: kPrev_def)
    from tr have len: "int (length trace) = off + 1" and p: "prevOK a b off (trace ! Suc d) (Suc d)"
      using Suc.prems(1) by (simp_all add: traceOK_def)
    have dle: "int (Suc d) \<le> off" using Suc.prems(1) off(2) by linarith
    have sl: "Suc d < length snakes" using Suc.prems(7) by simp
    have on: "onRound (Suc d) (x - (x - k))" using Suc.prems(2) by simp
    have step: "backtrackLoop trace off snakes x (x - k) (int (Suc d)) =
         backtrackLoop trace off (snakes[Suc d := Some (x, x - k)]) (Fm a b d kPrev) (Fm a b d kPrev - kPrev) (int d)"
      using True by (intro backtrackLoop_step [OF _ _ len p dle off(1) sl on kPrev_def]) auto
    have xk: "Fm a b (Suc d) k \<le> int (length a)" "Fm a b (Suc d) k - k \<le> int (length b)"
      using Suc.prems(3,4,5) by simp_all
    note g = gstep_round [OF Suc.prems(2) xk kp']
    have path: "gpath a b (Fm a b d kPrev, Fm a b d kPrev - kPrev) ((x, x - k) # qs)"
      using g(4) Suc.prems(3,6) by simp
    have shape: "snakes[Suc d := Some (x, x - k)] =
        replicate (Suc d) None @ map Some ((x, x - k) # qs) @ replicate r None"
      unfolding Suc.prems(7) by (simp only: replicate_Suc_update list.map append_Cons)
    have "d \<le> D" using Suc.prems(1) by simp
    from Suc.IH [OF this g(1) refl g(2,3) path shape] step
    show ?thesis by simp
  qed
qed

lemma backtrackLoop_top:
  assumes tr: "traceOK a b off trace D" and off: "int D \<le> off"
    and pos: "x > 0" "y > 0"
  shows "D \<le> d \<Longrightarrow> int d \<le> off \<Longrightarrow>
     backtrackLoop trace off snakes x y (int d) = backtrackLoop trace off snakes x y (int D)"
proof (induction d)
  case 0
  then show ?case by simp
next
  case (Suc d)
  show ?case
  proof (cases "Suc d = D")
    case True
    then show ?thesis by simp
  next
    case False
    with Suc.prems have lt: "D < Suc d" and le: "D \<le> d" by simp_all
    from tr lt Suc.prems(2) have e: "trace ! Suc d = []" and len: "int (length trace) = off + 1"
      by (simp_all add: traceOK_def)
    have "backtrackLoop trace off snakes x y (int (Suc d)) =
          backtrackLoop trace off snakes x y (int (Suc d) - 1)"
      using pos Suc.prems(2) len e by (intro backtrackLoop_skip) (simp_all del: of_nat_Suc)
    also have "int (Suc d) - 1 = int d" by simp
    finally show ?thesis using Suc.IH [OF le] Suc.prems(2) by simp
  qed
qed

lemma backtrack_path:
  assumes tr: "traceOK a b off trace D" and off: "off = int (length b) + int (length a)" "1 \<le> off" "int D \<le> off"
    and found: "foundAt a b D"
  shows "\<exists>n1 qs n2. backtrack trace (int (length a)) (int (length b)) off =
           Inr (replicate n1 None @ map Some qs @ replicate n2 None) \<and> gpath a b (0, 0) qs"
proof -
  let ?M = "int (length a)" and ?N = "int (length b)"
  let ?top = "length b + length a"
  let ?sn = "replicate (length trace) (None :: (int \<times> int) option)"
  from tr have len: "int (length trace) = off + 1" by (simp add: traceOK_def)
  then have ltr: "length trace = Suc ?top" "int (length trace) - 1 = int ?top" using off(1) by simp_all
  have "\<exists>snakes' x' y' d' qs' r. backtrackLoop trace off ?sn ?M ?N (int ?top) = Inr (snakes', x', y', int d') \<and>
        0 \<le> x' \<and> 0 \<le> y' \<and> snakes' = replicate (Suc d') None @ map Some qs' @ replicate r None \<and>
        gpath a b (x', y') qs' \<and> gstep a b (0, 0) (x', y')"
  proof (cases "?M > 0 \<and> ?N > 0")
    case False
    have stop: "backtrackLoop trace off ?sn ?M ?N (int ?top) = Inr (?sn, ?M, ?N, int ?top)"
      using False by (intro backtrackLoop_stop) auto
    have "gstep a b (0, 0) (?M, ?N)"
      using False by (intro gstep_origin) auto
    moreover have "?sn = replicate (Suc ?top) None @ map Some [] @ replicate 0 None"
      by (simp add: ltr)
    ultimately show ?thesis using stop
      by (intro exI [of _ ?sn] exI [of _ ?M] exI [of _ ?N] exI [of _ ?top] exI [of _ "[]"] exI [of _ 0]) simp
  next
    case True
    have DT: "D \<le> ?top" using off by linarith
    have "backtrackLoop trace off ?sn ?M ?N (int ?top) = backtrackLoop trace off ?sn ?M ?N (int D)"
      using True DT off(1) by (intro backtrackLoop_top [OF tr off(3)]) auto
    moreover
    from found have on: "onRound D (?M - ?N)" and x: "?M = Fm a b D (?M - ?N)"
      by (simp_all add: foundAt_def)
    have shape: "?sn = replicate (Suc D) None @ map Some [] @ replicate (?top - D) None"
      using DT by (simp add: ltr flip: replicate_add)
    have p: "gpath a b (?M, ?M - (?M - ?N)) []" by simp
    from backtrackLoop_path [OF tr off(2,3) le_refl on x _ _ p shape]
    obtain snakes' x' y' d' qs' where
        "backtrackLoop trace off ?sn ?M (?M - (?M - ?N)) (int D) = Inr (snakes', x', y', int d')"
        "0 \<le> x'" "0 \<le> y'" "snakes' = replicate (Suc d') None @ map Some qs' @ replicate (?top - D) None"
        "gpath a b (x', y') qs'" "gstep a b (0, 0) (x', y')"
      by auto
    moreover have "?M - (?M - ?N) = ?N" by simp
    ultimately have "backtrackLoop trace off ?sn ?M ?N (int ?top) = Inr (snakes', x', y', int d') \<and>
        0 \<le> x' \<and> 0 \<le> y' \<and> snakes' = replicate (Suc d') None @ map Some qs' @ replicate (?top - D) None \<and>
        gpath a b (x', y') qs' \<and> gstep a b (0, 0) (x', y')"
      by (simp only: simp_thms)
    then show ?thesis by blast
  qed
  then obtain snakes' x' y' d' qs' r where
    r: "backtrackLoop trace off ?sn ?M ?N (int ?top) = Inr (snakes', x', y', int d')"
      "0 \<le> x'" "0 \<le> y'" "snakes' = replicate (Suc d') None @ map Some qs' @ replicate r None"
      "gpath a b (x', y') qs'" "gstep a b (0, 0) (x', y')"
    by blast
  have st: "store snakes' (int d') (Some (x', y')) = Inr (replicate d' None @ map Some ((x', y') # qs') @ replicate r None)"
    unfolding r(4) by (simp add: store_def replicate_Suc_update del: replicate_Suc)
  have r1: "backtrackLoop trace off ?sn ?M ?N (int (length trace) - 1) = Inr (snakes', x', y', int d')"
    using r(1) by (simp only: ltr(2))
  have "backtrack trace ?M ?N off = Inr (replicate d' None @ map Some ((x', y') # qs') @ replicate r None)"
    using r(2,3) unfolding backtrack_def r1 by (simp add: st)
  moreover have "gpath a b (0, 0) ((x', y') # qs')" using r(5,6) by simp
  ultimately show ?thesis by blast
qed

subsection \<open>Operations returns an edit script\<close>

declare deleteLoop.simps [simp del] insertLoop.simps [simp del] equalLoop.simps [simp del]

lemma deleteLoop_eq:
  "k - (x - y) = int m \<Longrightarrow> x + int m \<le> M \<Longrightarrow> deleteLoop k M x y = x + int m"
proof (induction m arbitrary: x)
  case 0
  then show ?case by (subst deleteLoop.simps) simp
next
  case (Suc m)
  show ?case
  proof (cases "x + 1 = M")
    case True
    with Suc.prems have "m = 0" by simp
    with True Suc.prems show ?thesis by (subst deleteLoop.simps) simp
  next
    case False
    have "deleteLoop k M (x + 1) y = x + 1 + int m"
      using Suc.prems by (intro Suc.IH) simp_all
    with False Suc.prems show ?thesis by (subst deleteLoop.simps) simp
  qed
qed

lemma insertLoop_eq: "x - y - k = int m \<Longrightarrow> insertLoop k x y = y + int m"
proof (induction m arbitrary: y)
  case 0
  then show ?case by (subst insertLoop.simps) simp
next
  case (Suc m)
  have "insertLoop k x (y + 1) = y + 1 + int m"
    using Suc.prems by (intro Suc.IH) simp
  with Suc.prems show ?case by (subst insertLoop.simps) simp
qed

lemma equalLoop_eq: "sx - x = int t \<Longrightarrow> equalLoop sx x y = (sx, y + int t)"
proof (induction t arbitrary: x y)
  case 0
  then show ?case by (subst equalLoop.simps) simp
next
  case (Suc t)
  have "equalLoop sx (x + 1) (y + 1) = (sx, y + 1 + int t)"
    using Suc.prems by (intro Suc.IH) simp
  with Suc.prems show ?case by (subst equalLoop.simps) simp
qed

lemma snakesLoop_Nones: "snakesLoop M N (replicate n None @ rest) x y sol = snakesLoop M N rest x y sol"
  by (induction n) simp_all

lemma snakesLoop_only_Nones: "snakesLoop M N (replicate n None) x y sol = Inr sol"
  using snakesLoop_Nones [of M N n "[]" x y sol] by simp

lemma eqRun_append:
  assumes "0 \<le> t1" "0 \<le> t2" "0 \<le> x" "0 \<le> y"
    and "eqRun a b x y t1" "eqRun a b (x + t1) (y + t1) t2"
  shows "eqRun a b x y (t1 + t2)"
proof -
  have n: "nat (t1 + t2) = nat t1 + nat t2" "nat (x + t1) = nat t1 + nat x" "nat (y + t1) = nat t1 + nat y"
    using assms(1-4) by linarith+
  have "take (nat t1 + nat t2) (drop (nat x) a) =
        take (nat t1) (drop (nat x) a) @ take (nat t2) (drop (nat t1) (drop (nat x) a))"
    by (rule take_add)
  moreover have "take (nat t1 + nat t2) (drop (nat y) b) =
        take (nat t1) (drop (nat y) b) @ take (nat t2) (drop (nat t1) (drop (nat y) b))"
    by (rule take_add)
  ultimately show ?thesis
    using assms(5,6) by (simp add: eqRun_def n)
qed

lemma eqRun_to_end:
  assumes "0 \<le> x" "0 \<le> y" "x \<le> int (length a)" "int (length a) - x = int (length b) - y"
    and "eqRun a b x y (int (length a) - x)"
  shows "drop (nat x) a = drop (nat y) b"
proof -
  have "nat (int (length a) - x) = length a - nat x" "nat (int (length a) - x) = length b - nat y"
    using assms(1-4) by linarith+
  then have "take (nat (int (length a) - x)) (drop (nat x) a) = drop (nat x) a"
    "take (nat (int (length a) - x)) (drop (nat y) b) = drop (nat y) b"
    by simp_all
  with assms(5) show ?thesis by (simp add: eqRun_def)
qed

lemma add_Delete:
  "int (length sol) < cap \<Longrightarrow>
   add cap sol \<lparr>Kind = Delete, OpStart = x, OpEnd = 0, ReplStart = y, ReplEnd = 0\<rparr> x1 y1 =
     Inr (sol @ [\<lparr>Kind = Delete, OpStart = x, OpEnd = x1, ReplStart = y, ReplEnd = 0\<rparr>])"
  by (simp add: add_def)

lemma add_Insert:
  "int (length sol) < cap \<Longrightarrow>
   add cap sol \<lparr>Kind = Insert, OpStart = x, OpEnd = 0, ReplStart = y, ReplEnd = 0\<rparr> x1 y1 =
     Inr (sol @ [\<lparr>Kind = Insert, OpStart = x, OpEnd = x1, ReplStart = y, ReplEnd = y1\<rparr>])"
  by (simp add: add_def)

lemma snake_delete:
  assumes "0 < dk" "dk = (sx - sy) - (x - y)" "sx \<le> M" "sy \<le> N" "y \<le> sy" "int (length sol) \<le> x + y"
  shows "snakesLoop M N (Some (sx, sy) # snakes) x y sol =
     (if sx \<ge> M \<and> sy \<ge> N
      then Inr (sol @ [\<lparr>Kind = Delete, OpStart = x, OpEnd = x + dk, ReplStart = y, ReplEnd = 0\<rparr>])
      else snakesLoop M N snakes sx sy
             (sol @ [\<lparr>Kind = Delete, OpStart = x, OpEnd = x + dk, ReplStart = y, ReplEnd = 0\<rparr>]))"
proof -
  have c1: "sx - sy > x - y" using assms(1,2) by simp
  have dl: "deleteLoop (sx - sy) M x y = x + dk"
    using deleteLoop_eq [of "sx - sy" x y "nat dk" M] assms by simp
  have cap: "int (length sol) < M + N" using assms by linarith
  have c2: "\<not> sx - sy < x + dk - y" using assms(2) by simp
  have el: "equalLoop sx (x + dk) y = (sx, sy)"
    using equalLoop_eq [of sx "x + dk" "nat (sy - y)" y] assms by simp
  show ?thesis
    by (simp only: snakesLoop.simps c1 if_True Let_def dl add_Delete [OF cap] sum.case prod.case
        c2 if_False el)
qed

lemma snake_insert:
  assumes "dk < 0" "dk = (sx - sy) - (x - y)" "sx \<le> M" "sy \<le> N" "x \<le> sx" "int (length sol) \<le> x + y"
  shows "snakesLoop M N (Some (sx, sy) # snakes) x y sol =
     (if sx \<ge> M \<and> sy \<ge> N
      then Inr (sol @ [\<lparr>Kind = Insert, OpStart = x, OpEnd = x, ReplStart = y, ReplEnd = y - dk\<rparr>])
      else snakesLoop M N snakes sx sy
             (sol @ [\<lparr>Kind = Insert, OpStart = x, OpEnd = x, ReplStart = y, ReplEnd = y - dk\<rparr>]))"
proof -
  have c1: "\<not> sx - sy > x - y" using assms(1,2) by simp
  have c2: "sx - sy < x - y" using assms(1,2) by simp
  have il: "insertLoop (sx - sy) x y = y - dk"
    using insertLoop_eq [of x y "sx - sy" "nat (- dk)"] assms by simp
  have cap: "int (length sol) < M + N" using assms by linarith
  have el: "equalLoop sx x (y - dk) = (sx, sy)"
    using equalLoop_eq [of sx x "nat (sx - x)" "y - dk"] assms by simp
  show ?thesis
    by (simp only: snakesLoop.simps c1 c2 if_True if_False Let_def il add_Insert [OF cap] sum.case prod.case el)
qed

lemma snake_equal:
  assumes "(sx - sy) = (x - y)" "x \<le> sx"
  shows "snakesLoop M N (Some (sx, sy) # snakes) x y sol =
     (if sx \<ge> M \<and> sy \<ge> N then Inr sol else snakesLoop M N snakes sx sy sol)"
proof -
  have c: "\<not> sx - sy > x - y" "\<not> sx - sy < x - y" using assms by simp_all
  have el: "equalLoop sx x y = (sx, sy)"
    using equalLoop_eq [of sx x "nat (sx - x)" y] assms by simp
  show ?thesis
    by (simp only: snakesLoop.simps c if_False sum.case prod.case el)
qed

lemma snakesLoop_script:
  "gpath a b (x, y) qs \<Longrightarrow> 0 \<le> xg \<Longrightarrow> 0 \<le> yg \<Longrightarrow> xg \<le> x \<Longrightarrow> x - xg = y - yg \<Longrightarrow>
   eqRun a b xg yg (x - xg) \<Longrightarrow> x \<le> int (length a) \<Longrightarrow> y \<le> int (length b) \<Longrightarrow>
   int (length sol) \<le> x + y \<Longrightarrow>
   \<exists>opers. snakesLoop (int (length a)) (int (length b)) (map Some qs @ replicate n None) x y sol =
             Inr (sol @ opers) \<and> scriptOK a b xg yg opers"
proof (induction qs arbitrary: x y xg yg sol)
  case Nil
  then have e: "x = int (length a)" "y = int (length b)" by simp_all
  have "drop (nat xg) a = drop (nat yg) b"
    using Nil.prems e by (intro eqRun_to_end) auto
  with Nil.prems show ?case by (simp add: snakesLoop_only_Nones)
next
  case (Cons q qs)
  let ?M = "int (length a)" and ?N = "int (length b)"
  obtain sx sy where q: "q = (sx, sy)" by (cases q)
  define t where "t = min (sx - x) (sy - y)"
  define dk where "dk = (sx - sy) - (x - y)"
  from Cons.prems(1) q have g: "0 \<le> x" "0 \<le> y" "x \<le> sx" "y \<le> sy" "sx \<le> ?M" "sy \<le> ?N"
    "eqRun a b (sx - t) (sy - t) t" and path: "gpath a b (sx, sy) qs"
    by (simp_all add: gstep_def Let_def t_def)
  have rest: "\<exists>opers. (if sx \<ge> ?M \<and> sy \<ge> ?N then Inr sol1
                       else snakesLoop ?M ?N (map Some qs @ replicate n None) sx sy sol1) = Inr (sol1 @ opers) \<and>
                scriptOK a b xg1 yg1 opers"
    if "0 \<le> xg1" "0 \<le> yg1" "xg1 \<le> sx" "sx - xg1 = sy - yg1" "eqRun a b xg1 yg1 (sx - xg1)"
       "int (length sol1) \<le> sx + sy" for xg1 yg1 sol1
  proof (cases "sx \<ge> ?M \<and> sy \<ge> ?N")
    case True
    with g have e: "sx = ?M" "sy = ?N" by simp_all
    have "drop (nat xg1) a = drop (nat yg1) b"
      using that e by (intro eqRun_to_end) auto
    with True that show ?thesis by simp
  next
    case False
    from Cons.IH [OF path that(1,2,3,4,5) g(5,6) that(6)] show ?thesis
      by (simp only: if_not_P [OF False])
  qed
  consider (del) "0 < dk" | (ins) "dk < 0" | (eq) "dk = 0" by linarith
  then show ?case
  proof cases
    case del
    let ?op = "\<lparr>Kind = Delete, OpStart = x, OpEnd = x + dk, ReplStart = y, ReplEnd = 0\<rparr>"
    have tt: "t = sy - y" "sx - t = x + dk" "sy - t = y" using del by (simp_all add: t_def dk_def)
    have "sx - (x + dk) = t" using tt by simp
    then have run: "eqRun a b (x + dk) y (sx - (x + dk))" using g(7) by (simp only: tt(2,3))
    from rest [of "x + dk" y "sol @ [?op]"] run g del Cons.prems(9)
    obtain opers where o: "(if sx \<ge> ?M \<and> sy \<ge> ?N then Inr (sol @ [?op])
                       else snakesLoop ?M ?N (map Some qs @ replicate n None) sx sy (sol @ [?op])) =
                 Inr ((sol @ [?op]) @ opers)" "scriptOK a b (x + dk) y opers"
      by (auto simp: dk_def)
    have "snakesLoop ?M ?N (map Some (q # qs) @ replicate n None) x y sol = Inr (sol @ (?op # opers))"
      using snake_delete [OF del dk_def g(5,6,4) Cons.prems(9)] o(1) by (simp add: q)
    moreover have "scriptOK a b xg yg (?op # opers)"
      using Cons.prems(2-8) o(2) del g by (simp add: dk_def)
    ultimately show ?thesis by blast
  next
    case ins
    let ?op = "\<lparr>Kind = Insert, OpStart = x, OpEnd = x, ReplStart = y, ReplEnd = y - dk\<rparr>"
    have tt: "t = sx - x" "sx - t = x" "sy - t = y - dk" using ins by (simp_all add: t_def dk_def)
    have run: "eqRun a b x (y - dk) (sx - x)" using g(7) by (simp only: tt(2,3)) (simp only: tt(1))
    from rest [of x "y - dk" "sol @ [?op]"] run g ins Cons.prems(9)
    obtain opers where o: "(if sx \<ge> ?M \<and> sy \<ge> ?N then Inr (sol @ [?op])
                       else snakesLoop ?M ?N (map Some qs @ replicate n None) sx sy (sol @ [?op])) =
                 Inr ((sol @ [?op]) @ opers)" "scriptOK a b x (y - dk) opers"
      by (auto simp: dk_def)
    have "snakesLoop ?M ?N (map Some (q # qs) @ replicate n None) x y sol = Inr (sol @ (?op # opers))"
      using snake_insert [OF ins dk_def g(5,6,3) Cons.prems(9)] o(1) by (simp add: q)
    moreover have "scriptOK a b xg yg (?op # opers)"
      using Cons.prems(2-8) o(2) ins g by (simp add: dk_def)
    ultimately show ?thesis by blast
  next
    case eq
    have tt: "t = sx - x" "sx - t = x" "sy - t = y" using eq by (simp_all add: t_def dk_def)
    have "eqRun a b xg yg ((x - xg) + (sx - x))"
    proof (rule eqRun_append)
      have "xg + (x - xg) = x" "yg + (x - xg) = y" using Cons.prems(5) by simp_all
      then show "eqRun a b (xg + (x - xg)) (yg + (x - xg)) (sx - x)"
        using g(7) by (simp only: tt(2,3)) (simp only: tt(1))
    qed (use Cons.prems g in simp_all)
    then have run: "eqRun a b xg yg (sx - xg)" by simp
    have "\<exists>opers. (if sx \<ge> ?M \<and> sy \<ge> ?N then Inr sol
                       else snakesLoop ?M ?N (map Some qs @ replicate n None) sx sy sol) =
                 Inr (sol @ opers) \<and> scriptOK a b xg yg opers"
    proof (rule rest)
      show "0 \<le> xg" "0 \<le> yg" by (rule Cons.prems)+
      show "xg \<le> sx" using Cons.prems(4) g(3) by linarith
      show "sx - xg = sy - yg" using Cons.prems(5) eq by (simp add: dk_def)
      show "eqRun a b xg yg (sx - xg)" by (rule run)
      show "int (length sol) \<le> sx + sy" using Cons.prems(9) g(3,4) by linarith
    qed
    then obtain opers where o: "(if sx \<ge> ?M \<and> sy \<ge> ?N then Inr sol
                       else snakesLoop ?M ?N (map Some qs @ replicate n None) sx sy sol) =
                 Inr (sol @ opers)" "scriptOK a b xg yg opers"
      by blast
    have "snakesLoop ?M ?N (map Some (q # qs) @ replicate n None) x y sol = Inr (sol @ opers)"
      using snake_equal [of sx sy x y] eq g(3) o(1) by (simp add: q dk_def)
    with o(2) show ?thesis by blast
  qed
qed

lemma Operations_script:
  "\<exists>opers. Operations a b = Inr opers \<and> scriptOK a b 0 0 opers"
proof (cases "length a = 0 \<and> length b = 0")
  case True
  then show ?thesis by (simp add: Operations_def)
next
  case False
  then have pos: "0 < length a + length b" by auto
  let ?off = "int (length b) + int (length a)"
  from shortestEditSequence_correct [OF pos]
  obtain trace D where s: "shortestEditSequence a b = Inr (trace, ?off)"
      "int D \<le> ?off" "foundAt a b D" "traceOK a b ?off trace D"
    by blast
  have off: "1 \<le> ?off" using pos by linarith
  from backtrack_path [OF s(4) refl off s(2,3)]
  obtain n1 qs n2 where b: "backtrack trace (int (length a)) (int (length b)) ?off =
       Inr (replicate n1 None @ map Some qs @ replicate n2 None)" "gpath a b (0, 0) qs"
    by blast
  have "eqRun a b 0 0 (0 - 0)" by (simp add: eqRun_def)
  from snakesLoop_script [OF b(2) _ _ _ _ this, of "[]" n2]
  obtain opers where o: "snakesLoop (int (length a)) (int (length b)) (map Some qs @ replicate n2 None) 0 0 [] =
      Inr opers" "scriptOK a b 0 0 opers"
    by auto
  have "Operations a b = Inr opers"
    by (simp only: Operations_def if_not_P [OF False] s(1) b(1) sum.case prod.case
        snakesLoop_Nones o(1))
  with o(2) show ?thesis by blast
qed

subsection \<open>Lines and offsets\<close>

lemma SplitAfter_not_Nil [simp]: "SplitAfter t \<noteq> []"
  by (induction t) (auto split: list.splits)

lemma concat_SplitAfter [simp]: "concat (SplitAfter t) = t"
  by (induction t) (auto split: list.splits)

lemma concat_splitLines: "concat (splitLines t) = t"
proof -
  have "concat (butlast xs) = concat xs" if "xs \<noteq> []" "last xs = []" for xs :: "bytes list"
    using that by (induction xs) (auto split: if_splits)
  then show ?thesis
    by (simp add: splitLines_def Let_def)
qed

lemma lineOffsetsFrom_length [simp]: "length (lineOffsetsFrom tot ls) = Suc (length ls)"
  by (induction ls arbitrary: tot) simp_all

lemma lineOffsetsFrom_nth:
  "n \<le> length ls \<Longrightarrow> lineOffsetsFrom tot ls ! n = tot + int (length (concat (take n ls)))"
proof (induction ls arbitrary: tot n)
  case Nil
  then show ?case by simp
next
  case (Cons l ls)
  then show ?case by (cases n) simp_all
qed

lemma index_lineOffsets:
  "0 \<le> x \<Longrightarrow> x \<le> int (length a) \<Longrightarrow> index (lineOffsetsFrom 0 a) x = Inr (offs a (nat x))"
  by (simp add: index_def lineOffsetsFrom_nth offs_def)

lemma offs_add: "offs a (n + m) = offs a n + int (length (concat (take m (drop n a))))"
  by (simp add: offs_def take_add)

lemma offs_mono: "n \<le> m \<Longrightarrow> offs a n \<le> offs a m"
  using offs_add [of a n "m - n"] by simp

lemma offs_nonneg [simp]: "0 \<le> offs a n"
  by (simp add: offs_def)

lemma offs_le: "offs a n \<le> int (length (concat a))"
proof -
  have "concat a = concat (take n a) @ concat (drop n a)"
    by (metis append_take_drop_id concat_append)
  then have "length (concat a) = length (concat (take n a)) + length (concat (drop n a))"
    by (metis length_append)
  then show ?thesis by (simp add: offs_def)
qed

lemma drop_offs: "drop (nat (offs a n)) (concat a) = concat (drop n a)"
proof -
  have "concat a = concat (take n a) @ concat (drop n a)"
    by (metis append_take_drop_id concat_append)
  then have "drop (length (concat (take n a))) (concat a) = concat (drop n a)"
    by (metis append_eq_conv_conj)
  then show ?thesis by (simp add: offs_def)
qed

lemma seg_offs: "seg (concat a) (offs a n) (offs a (n + m)) = concat (take m (drop n a))"
proof -
  have "drop n a = take m (drop n a) @ drop m (drop n a)" by (rule append_take_drop_id [symmetric])
  then have "concat (drop n a) = concat (take m (drop n a)) @ concat (drop m (drop n a))"
    by (metis concat_append)
  then have "take (length (concat (take m (drop n a)))) (concat (drop n a)) = concat (take m (drop n a))"
    by (metis append_eq_conv_conj)
  moreover have "nat (offs a (n + m) - offs a n) = length (concat (take m (drop n a)))"
    by (simp add: offs_add)
  ultimately show ?thesis
    by (simp only: seg_def drop_offs)
qed

lemma splice_lower:
  "chain L lo' es \<Longrightarrow> 0 \<le> lo \<Longrightarrow> lo \<le> lo' \<Longrightarrow> splice src lo es = seg src lo lo' @ splice src lo' es"
proof (cases es)
  case Nil
  assume "0 \<le> lo" "lo \<le> lo'"
  then show ?thesis using Nil seg_drop [of lo lo' src] by simp
next
  case (Cons e es')
  assume "chain L lo' es" "0 \<le> lo" "lo \<le> lo'"
  then have "seg src lo lo' @ seg src lo' (Start e) = seg src lo (Start e)"
    using Cons by (intro seg_seg) simp_all
  then show ?thesis
    by (simp only: Cons splice_Cons_seg append_assoc [symmetric])
qed

subsection \<open>From the operations to the edits\<close>

lemma sliceLines_ok:
  "0 \<le> lo \<Longrightarrow> lo \<le> hi \<Longrightarrow> hi \<le> int (length s) \<Longrightarrow>
   sliceLines s lo hi = Inr (take (nat (hi - lo)) (drop (nat lo) s))"
  by (simp add: sliceLines_def)

lemma concat_take_drop:
  "concat (take m (drop n b)) @ concat (drop (n + m) b) = concat (drop n b)"
proof -
  have "drop n b = take m (drop n b) @ drop m (drop n b)" by (rule append_take_drop_id [symmetric])
  then have "concat (drop n b) = concat (take m (drop n b)) @ concat (drop m (drop n b))"
    by (metis concat_append)
  then show ?thesis by (simp add: add.commute)
qed

lemma opsToEdits_script:
  "scriptOK a b x y opers \<Longrightarrow>
   \<exists>es. opsToEdits (lineOffsetsFrom 0 a) b opers acc = Inr (acc @ es) \<and>
        chain (int (length (concat a))) (offs a (nat x)) es \<and>
        splice (concat a) (offs a (nat x)) es = concat (drop (nat y) b)"
proof (induction opers arbitrary: x y acc)
  case Nil
  then have "drop (nat x) a = drop (nat y) b" by simp
  then show ?case by (simp add: drop_offs)
next
  case (Cons oper opers)
  let ?src = "concat a" and ?L = "int (length (concat a))"
  define s where "s = OpStart oper"
  define m where "m = nat (s - x)"
  from Cons.prems have f: "0 \<le> x" "0 \<le> y" "x \<le> s" "s \<le> int (length a)"
    "y + (s - x) \<le> int (length b)" "eqRun a b x y (s - x)"
    by (simp_all add: s_def)
  have ns: "nat s = nat x + m" using f by (simp add: m_def)
  have ix: "index (lineOffsetsFrom 0 a) (OpStart oper) = Inr (offs a (nat s))"
    using f by (simp add: index_lineOffsets s_def)
  have "take m (drop (nat x) a) = take m (drop (nat y) b)"
    using f(6) by (simp add: eqRun_def m_def)
  then have pre: "seg ?src (offs a (nat x)) (offs a (nat s)) = concat (take m (drop (nat y) b))"
    by (simp add: ns seg_offs)
  have xs: "offs a (nat x) \<le> offs a (nat s)" by (simp add: ns offs_mono)
  show ?case
  proof (cases "Kind oper")
    case Delete
    define e where "e = \<lparr>Start = offs a (nat s), End = offs a (nat (OpEnd oper)), New = []\<rparr>"
    from Cons.prems Delete have d: "s < OpEnd oper" "OpEnd oper \<le> int (length a)"
      "scriptOK a b (OpEnd oper) (y + (s - x)) opers"
      by (simp_all add: s_def)
    have ie: "index (lineOffsetsFrom 0 a) (OpEnd oper) = Inr (offs a (nat (OpEnd oper)))"
      using d f by (simp add: index_lineOffsets)
    from Cons.IH [OF d(3), of "acc @ [e]"] obtain es where
      es: "opsToEdits (lineOffsetsFrom 0 a) b opers (acc @ [e]) = Inr ((acc @ [e]) @ es)"
          "chain ?L (offs a (nat (OpEnd oper))) es"
          "splice ?src (offs a (nat (OpEnd oper))) es = concat (drop (nat (y + (s - x))) b)"
      by blast
    have run: "opsToEdits (lineOffsetsFrom 0 a) b (oper # opers) acc = Inr (acc @ (e # es))"
      using es(1) by (simp add: ix ie Delete e_def)
    have "offs a (nat s) \<le> offs a (nat (OpEnd oper))"
      using d f by (intro offs_mono) simp
    then have ch: "chain ?L (offs a (nat x)) (e # es)"
      using es(2) xs by (simp add: e_def inBounds_def offs_le)
    have ny: "nat (y + (s - x)) = nat y + m" using f by (simp add: m_def)
    have "splice ?src (offs a (nat x)) (e # es) =
            concat (take m (drop (nat y) b)) @ concat (drop (nat y + m) b)"
      using es(3) by (simp only: splice_Cons_seg) (simp add: e_def pre ny)
    then have "splice ?src (offs a (nat x)) (e # es) = concat (drop (nat y) b)"
      by (simp only: concat_take_drop)
    with run ch show ?thesis by blast
  next
    case Insert
    from Cons.prems Insert have i: "OpEnd oper = s" "ReplStart oper = y + (s - x)"
      "ReplStart oper < ReplEnd oper" "ReplEnd oper \<le> int (length b)"
      "scriptOK a b s (ReplEnd oper) opers"
      by (simp_all add: s_def)
    define r where "r = nat (ReplEnd oper - ReplStart oper)"
    define content where "content = concat (take r (drop (nat y + m) b))"
    define e where "e = \<lparr>Start = offs a (nat s), End = offs a (nat s), New = content\<rparr>"
    have ny: "nat (ReplStart oper) = nat y + m" using f i by (simp add: m_def)
    have nr: "nat (ReplEnd oper) = (nat y + m) + r" using f i by (simp add: m_def r_def)
    have "0 \<le> ReplStart oper" "ReplStart oper \<le> ReplEnd oper" using f i by simp_all
    from sliceLines_ok [OF this i(4)]
    have sl: "sliceLines b (ReplStart oper) (ReplEnd oper) = Inr (take r (drop (nat y + m) b))"
      by (simp only: ny r_def)
    have ie: "index (lineOffsetsFrom 0 a) (OpEnd oper) = Inr (offs a (nat s))"
      using ix by (simp add: i(1) s_def)
    have whole: "concat (take m (drop (nat y) b)) @ content @ concat (drop (nat (ReplEnd oper)) b) =
                 concat (drop (nat y) b)"
      by (simp only: content_def nr concat_take_drop)
    show ?thesis
    proof (cases "length content \<noteq> 0")
      case True
      from Cons.IH [OF i(5), of "acc @ [e]"] obtain es where
        es: "opsToEdits (lineOffsetsFrom 0 a) b opers (acc @ [e]) = Inr ((acc @ [e]) @ es)"
            "chain ?L (offs a (nat s)) es"
            "splice ?src (offs a (nat s)) es = concat (drop (nat (ReplEnd oper)) b)"
        by blast
      have run: "opsToEdits (lineOffsetsFrom 0 a) b (oper # opers) acc = Inr (acc @ (e # es))"
        using es(1) True by (simp add: ix ie sl Insert e_def content_def Let_def)
      have ch: "chain ?L (offs a (nat x)) (e # es)"
        using es(2) xs by (simp add: e_def inBounds_def offs_le)
      have "splice ?src (offs a (nat x)) (e # es) =
              concat (take m (drop (nat y) b)) @ content @ concat (drop (nat (ReplEnd oper)) b)"
        using es(3) by (simp only: splice_Cons_seg) (simp add: e_def pre)
      then have "splice ?src (offs a (nat x)) (e # es) = concat (drop (nat y) b)"
        by (simp only: whole)
      with run ch show ?thesis by blast
    next
      case False
      from Cons.IH [OF i(5), of acc] obtain es where
        es: "opsToEdits (lineOffsetsFrom 0 a) b opers acc = Inr (acc @ es)"
            "chain ?L (offs a (nat s)) es"
            "splice ?src (offs a (nat s)) es = concat (drop (nat (ReplEnd oper)) b)"
        by blast
      have run: "opsToEdits (lineOffsetsFrom 0 a) b (oper # opers) acc = Inr (acc @ es)"
        using es(1) False by (simp add: ix ie sl Insert content_def Let_def)
      have ch: "chain ?L (offs a (nat x)) es"
        using es(2) xs by (rule chain_mono)
      have "splice ?src (offs a (nat x)) es =
              seg ?src (offs a (nat x)) (offs a (nat s)) @ splice ?src (offs a (nat s)) es"
        using es(2) _ xs by (rule splice_lower) simp
      also have "\<dots> = concat (take m (drop (nat y) b)) @ content @ concat (drop (nat (ReplEnd oper)) b)"
        using False by (simp add: pre es(3))
      finally have "splice ?src (offs a (nat x)) es = concat (drop (nat y) b)"
        by (simp only: whole)
      with run ch show ?thesis by blast
    qed
  next
    case Equal
    with Cons.prems show ?thesis by simp
  qed
qed

lemma ComputeEdits_chain:
  "\<exists>E. ComputeEdits beforeText afterText = Inr E \<and>
       chain (int (length beforeText)) 0 E \<and> splice beforeText 0 E = afterText"
proof -
  let ?a = "splitLines beforeText" and ?b = "splitLines afterText"
  from Operations_script [of ?a ?b] obtain opers where
    o: "Operations ?a ?b = Inr opers" "scriptOK ?a ?b 0 0 opers"
    by blast
  from opsToEdits_script [OF o(2), of "[]"] obtain es where
    es: "opsToEdits (lineOffsetsFrom 0 ?a) ?b opers [] = Inr es"
        "chain (int (length (concat ?a))) (offs ?a 0) es"
        "splice (concat ?a) (offs ?a 0) es = concat (drop 0 ?b)"
    by auto
  have "ComputeEdits beforeText afterText = Inr es"
    by (simp add: ComputeEdits_def Let_def o(1) es(1))
  moreover have "chain (int (length beforeText)) 0 es" "splice beforeText 0 es = afterText"
    using es(2,3) by (simp_all add: concat_splitLines offs_def)
  ultimately show ?thesis by blast
qed

text \<open>
  C7. For all texts \<open>beforeText\<close> and \<open>afterText\<close>, \<open>myers.ComputeEdits\<close> returns (it
  does not panic) an edit list that is sorted and passes validation against the length of
  \<open>beforeText\<close> as it stands: no edit out of bounds, none overlapping its predecessor, and
  \<open>Validate\<close> hands the very same list back. Applying that list to \<open>beforeText\<close> returns
  \<open>afterText\<close> and no error.
\<close>

theorem ComputeEdits_valid_round_trip:
  "\<exists>E sz. ComputeEdits beforeText afterText = Inr E \<and>
          IsSorted E \<and>
          Validate (int (length beforeText)) E = Inr (E, sz) \<and>
          Apply beforeText E = Inr (afterText, None)"
proof -
  from ComputeEdits_chain [of beforeText afterText] obtain E where
    E: "ComputeEdits beforeText afterText = Inr E" "chain (int (length beforeText)) 0 E"
       "splice beforeText 0 E = afterText"
    by blast
  from chain_validate [OF E(2)] obtain sz where v: "validate beforeText E = Inr (E, sz)"
    by blast
  have "IsSorted E" using E(2) by (rule chain_IsSorted)
  moreover have "Validate (int (length beforeText)) E = Inr (E, sz)"
    using v by (simp only: validate_Validate)
  moreover have "Apply beforeText E = Inr (afterText, None)"
    using Apply_valid [OF v] E(3) by simp
  ultimately show ?thesis using E(1) by blast
qed

section \<open>The binary diff\<close>

subsection \<open>The sequence view\<close>

lemma prefixLoop_lcp:
  "0 \<le> i \<Longrightarrow> n = minInt (int (length a)) (int (length b)) \<Longrightarrow>
   prefixLoop a b n i = Inr (i + int (lcp (drop (nat i) a) (drop (nat i) b)))"
proof (induction a b n i rule: prefixLoop.induct)
  case (1 a b n i)
  show ?case
  proof (cases "i < n")
    case False
    then have "drop (nat i) a = [] \<or> drop (nat i) b = []"
      using 1(2,3) by (auto simp: minInt_def split: if_splits)
    then have "lcp (drop (nat i) a) (drop (nat i) b) = 0"
      by (cases "drop (nat i) a") auto
    with False show ?thesis
      by (subst prefixLoop.simps) simp
  next
    case True
    then have lt: "nat i < length a" "nat i < length b"
      using 1(2,3) by (auto simp: minInt_def split: if_splits)
    then have ix: "index a i = Inr (a ! nat i)" "index b i = Inr (b ! nat i)"
      using 1(2) by (simp_all add: index_def)
    have si: "nat (i + 1) = Suc (nat i)" using 1(2) by linarith
    show ?thesis
    proof (cases "a ! nat i = b ! nat i")
      case eq: True
      have "prefixLoop a b n (i + 1) = Inr (i + 1 + int (lcp (drop (nat (i + 1)) a) (drop (nat (i + 1)) b)))"
        using 1(1) [OF True ix eq] 1(2,3) by simp
      then show ?thesis
        using True ix eq lcp_Cons_drop [OF lt eq]
        by (subst prefixLoop.simps) (simp add: si)
    next
      case ne: False
      then show ?thesis
        using True ix lcp_zero_drop [OF lt ne]
        by (subst prefixLoop.simps) simp
    qed
  qed
qed

lemma commonPrefixLenString_lcp: "commonPrefixLenString a b = Inr (int (lcp a b))"
  using prefixLoop_lcp [of 0 _ a b] by (simp add: commonPrefixLenString_def)

lemma suffixLoop_lcp:
  "0 \<le> i \<Longrightarrow> n = minInt (int (length a)) (int (length b)) \<Longrightarrow>
   suffixLoop a b n i = Inr (i + int (lcp (drop (nat i) (rev a)) (drop (nat i) (rev b))))"
proof (induction a b n i rule: suffixLoop.induct)
  case (1 a b n i)
  show ?case
  proof (cases "i < n")
    case False
    then have "drop (nat i) (rev a) = [] \<or> drop (nat i) (rev b) = []"
      using 1(2,3) by (auto simp: minInt_def split: if_splits)
    then have "lcp (drop (nat i) (rev a)) (drop (nat i) (rev b)) = 0"
      by (cases "drop (nat i) (rev a)") auto
    with False show ?thesis
      by (subst suffixLoop.simps) simp
  next
    case True
    then have lt: "nat i < length a" "nat i < length b"
      using 1(2,3) by (auto simp: minInt_def split: if_splits)
    have na: "nat (int (length a) - 1 - i) = length a - Suc (nat i)"
      and nb: "nat (int (length b) - 1 - i) = length b - Suc (nat i)"
      using 1(2) lt by linarith+
    have ix: "index a (int (length a) - 1 - i) = Inr (rev a ! nat i)"
             "index b (int (length b) - 1 - i) = Inr (rev b ! nat i)"
      using 1(2) lt by (simp_all add: index_def rev_nth na nb)
    have lr: "nat i < length (rev a)" "nat i < length (rev b)" using lt by simp_all
    have si: "nat (i + 1) = Suc (nat i)" using 1(2) by linarith
    show ?thesis
    proof (cases "rev a ! nat i = rev b ! nat i")
      case eq: True
      have "suffixLoop a b n (i + 1) =
              Inr (i + 1 + int (lcp (drop (nat (i + 1)) (rev a)) (drop (nat (i + 1)) (rev b))))"
        using 1(1) [OF True ix eq] 1(2,3) by simp
      then show ?thesis
        using True ix eq lcp_Cons_drop [OF lr eq]
        by (subst suffixLoop.simps) (simp add: si)
    next
      case ne: False
      then show ?thesis
        using True ix lcp_zero_drop [OF lr ne]
        by (subst suffixLoop.simps) simp
    qed
  qed
qed

lemma commonSuffixLenString_lcp: "commonSuffixLenString a b = Inr (int (lcp (rev a) (rev b)))"
  using suffixLoop_lcp [of 0 _ a b] by (simp add: commonSuffixLenString_def)

lemma lcp_take: "take (lcp xs ys) xs = take (lcp xs ys) ys"
  by (induction xs ys rule: lcp.induct) auto

lemma lcp_rev_drop:
  "drop (length xs - lcp (rev xs) (rev ys)) xs = drop (length ys - lcp (rev xs) (rev ys)) ys"
proof -
  have "rev (take (lcp (rev xs) (rev ys)) (rev xs)) = rev (take (lcp (rev xs) (rev ys)) (rev ys))"
    by (simp only: lcp_take [of "rev xs" "rev ys"])
  then show ?thesis by (simp add: rev_take)
qed

lemma take_seg:
  "0 \<le> k \<Longrightarrow> k \<le> hi - lo \<Longrightarrow> take (nat k) (seg s lo hi) = seg s lo (lo + k)"
  by (simp add: seg_def min_def)

lemma drop_seg:
  "0 \<le> lo \<Longrightarrow> 0 \<le> k \<Longrightarrow> k \<le> hi - lo \<Longrightarrow> drop (nat k) (seg s lo hi) = seg s (lo + k) hi"
proof -
  assume a: "0 \<le> lo" "0 \<le> k" "k \<le> hi - lo"
  then have "nat (hi - lo) - nat k = nat (hi - (lo + k))" "nat k + nat lo = nat (lo + k)"
    by linarith+
  then show ?thesis
    by (simp add: seg_def drop_take)
qed

text \<open>On a window inside both texts the view returns the length \<open>k\<close> of a common prefix
  (suffix) of the two windows.\<close>

lemma commonPrefixLen_ok:
  assumes "0 \<le> ai" "ai \<le> aj" "aj \<le> int (length a)" "0 \<le> bi" "bi \<le> bj" "bj \<le> int (length b)"
  shows "\<exists>k. commonPrefixLen a b ai aj bi bj = Inr k \<and> 0 \<le> k \<and> k \<le> aj - ai \<and> k \<le> bj - bi \<and>
             seg a ai (ai + k) = seg b bi (bi + k)"
proof -
  define k where "k = lcp (seg a ai aj) (seg b bi bj)"
  have r: "commonPrefixLen a b ai aj bi bj = Inr (int k)"
    using assms by (simp add: commonPrefixLen_def slice_seg commonPrefixLenString_lcp k_def)
  have la: "int (length (seg a ai aj)) = aj - ai" and lb: "int (length (seg b bi bj)) = bj - bi"
    using assms by (simp_all add: length_seg)
  have le: "int k \<le> aj - ai" "int k \<le> bj - bi"
    using lcp_le [of "seg a ai aj" "seg b bi bj"] la lb unfolding k_def by linarith+
  have "take (nat (int k)) (seg a ai aj) = take (nat (int k)) (seg b bi bj)"
    using lcp_take [of "seg a ai aj" "seg b bi bj"] by (simp add: k_def)
  then have "seg a ai (ai + int k) = seg b bi (bi + int k)"
    using le by (simp only: take_seg [OF of_nat_0_le_iff])
  with r le show ?thesis by auto
qed

lemma commonSuffixLen_ok:
  assumes "0 \<le> ai" "ai \<le> aj" "aj \<le> int (length a)" "0 \<le> bi" "bi \<le> bj" "bj \<le> int (length b)"
  shows "\<exists>k. commonSuffixLen a b ai aj bi bj = Inr k \<and> 0 \<le> k \<and> k \<le> aj - ai \<and> k \<le> bj - bi \<and>
             seg a (aj - k) aj = seg b (bj - k) bj"
proof -
  define k where "k = lcp (rev (seg a ai aj)) (rev (seg b bi bj))"
  have r: "commonSuffixLen a b ai aj bi bj = Inr (int k)"
    using assms by (simp add: commonSuffixLen_def slice_seg commonSuffixLenString_lcp k_def)
  have la: "int (length (seg a ai aj)) = aj - ai" and lb: "int (length (seg b bi bj)) = bj - bi"
    using assms by (simp_all add: length_seg)
  have le: "int k \<le> aj - ai" "int k \<le> bj - bi"
    using lcp_le [of "rev (seg a ai aj)" "rev (seg b bi bj)"] la lb unfolding k_def by simp_all
  have na: "length (seg a ai aj) - k = nat (aj - ai - int k)"
    and nb: "length (seg b bi bj) - k = nat (bj - bi - int k)"
    using la lb by linarith+
  have "drop (nat (aj - ai - int k)) (seg a ai aj) = drop (nat (bj - bi - int k)) (seg b bi bj)"
    using lcp_rev_drop [of "seg a ai aj" "seg b bi bj"] by (simp only: k_def [symmetric] na nb)
  moreover have "drop (nat (aj - ai - int k)) (seg a ai aj) = seg a (ai + (aj - ai - int k)) aj"
    using assms le by (intro drop_seg) simp_all
  moreover have "drop (nat (bj - bi - int k)) (seg b bi bj) = seg b (bi + (bj - bi - int k)) bj"
    using assms le by (intro drop_seg) simp_all
  ultimately have "seg a (aj - int k) aj = seg b (bj - int k) bj"
    by (simp add: algebra_simps)
  with r le show ?thesis by auto
qed

subsection \<open>The anchor\<close>

lemma alignment_ok:
  assumes "0 \<le> ai" "ai \<le> fst c" "fst c \<le> aj" "aj \<le> int (length a)"
          "0 \<le> bi" "bi \<le> snd c" "snd c \<le> bj" "bj \<le> int (length b)"
  shows "\<exists>v. alignment a b ai aj bi bj c = Inr v"
proof -
  have "\<exists>k. commonSuffixLen a b ai (fst c) bi (snd c) = Inr k"
    using commonSuffixLen_ok [of ai "fst c" a bi "snd c" b] assms by auto
  moreover have "\<exists>k. commonPrefixLen a b (fst c) aj (snd c) bj = Inr k"
    using commonPrefixLen_ok [of "fst c" aj a "snd c" bj b] assms by auto
  ultimately show ?thesis by (auto simp: alignment_def)
qed

lemma bestAnchor_ok:
  assumes "\<And>c. c \<in> set cs \<Longrightarrow> \<exists>v. alignment a b ai aj bi bj c = Inr v"
  shows "\<exists>r. bestAnchor a b ai aj bi bj cs c0 sc = Inr r \<and> (r = c0 \<or> r \<in> set cs)"
  using assms
proof (induction cs arbitrary: c0 sc)
  case Nil
  then show ?case by simp
next
  case (Cons c cs)
  from Cons.prems [of c] obtain v where v: "alignment a b ai aj bi bj c = Inr v" by auto
  have rest: "\<exists>r. bestAnchor a b ai aj bi bj cs c1 s1 = Inr r \<and> (r = c1 \<or> r \<in> set cs)" for c1 s1
    using Cons.IH [of c1 s1] Cons.prems by simp
  show ?case
  proof (cases "sc < v")
    case True
    with rest [of c v] v show ?thesis by auto
  next
    case False
    with rest [of c0 sc] v show ?thesis by auto
  qed
qed

lemma candidates_interior:
  assumes "c \<in> set (candidates ai aj bi bj)" "ai < aj" "bi < bj"
  shows "ai \<le> fst c \<and> fst c \<le> aj \<and> bi \<le> snd c \<and> snd c \<le> bj \<and> c \<noteq> (ai, bi) \<and> c \<noteq> (aj, bj)"
proof (cases "bj - bi \<le> aj - ai")
  case True
  define x where "x = ai + (aj - ai) div 2"
  have x: "ai \<le> x" "x < aj" using assms(2) by (simp_all add: x_def)
  from assms(1) True obtain y where c: "c = (x, y)" "(if x = ai then bi + 1 else bi) \<le> y" "y \<le> bj"
    by (auto simp: candidates_def Let_def x_def)
  show ?thesis using c x by (auto split: if_splits)
next
  case False
  define y where "y = bi + (bj - bi) div 2"
  have y: "bi \<le> y" "y < bj" using assms(3) by (simp_all add: y_def)
  from assms(1) False obtain x where c: "c = (x, y)" "(if y = bi then ai + 1 else ai) \<le> x" "x \<le> aj"
    by (auto simp: candidates_def Let_def y_def)
  show ?thesis using c y by (auto split: if_splits)
qed

lemma anchor_ok:
  assumes "0 \<le> ai" "ai < aj" "aj \<le> int (length a)" "0 \<le> bi" "bi < bj" "bj \<le> int (length b)"
  shows "\<exists>c. anchor a b ai aj bi bj = Inr c \<and>
             ai \<le> fst c \<and> fst c \<le> aj \<and> bi \<le> snd c \<and> snd c \<le> bj \<and> c \<noteq> (ai, bi) \<and> c \<noteq> (aj, bj)"
proof -
  have "\<exists>v. alignment a b ai aj bi bj c = Inr v" if "c \<in> set (candidates ai aj bi bj)" for c
    using candidates_interior [OF that assms(2,5)] assms by (intro alignment_ok) simp_all
  from bestAnchor_ok [of "candidates ai aj bi bj" a b ai aj bi bj "(ai, bj)" "- 1", OF this]
  obtain r where r: "anchor a b ai aj bi bj = Inr r" "r = (ai, bj) \<or> r \<in> set (candidates ai aj bi bj)"
    by (auto simp: anchor_def)
  from r(2) have "ai \<le> fst r \<and> fst r \<le> aj \<and> bi \<le> snd r \<and> snd r \<le> bj \<and> r \<noteq> (ai, bi) \<and> r \<noteq> (aj, bj)"
  proof
    assume "r = (ai, bj)"
    with assms show ?thesis by simp
  next
    assume "r \<in> set (candidates ai aj bi bj)"
    from candidates_interior [OF this assms(2,5)] show ?thesis .
  qed
  with r(1) show ?thesis by blast
qed

subsection \<open>Lists of diffs\<close>

lemma covers_extend_left:
  assumes "covers a b ai aj bi bj ds" "0 \<le> ai0" "ai0 \<le> ai" "0 \<le> bi0" "ai - ai0 = bi - bi0"
          "seg a ai0 ai = seg b bi0 bi"
  shows "covers a b ai0 aj bi0 bj ds"
proof (cases ds)
  case Nil
  with assms(1) have c: "ai \<le> aj" "aj - ai = bj - bi" "seg a ai aj = seg b bi bj" by simp_all
  have "seg a ai0 aj = seg a ai0 ai @ seg a ai aj"
    using assms c by (intro seg_seg [symmetric]) simp_all
  moreover have "seg b bi0 bj = seg b bi0 bi @ seg b bi bj"
    using assms c by (intro seg_seg [symmetric]) linarith+
  ultimately show ?thesis using Nil assms c by simp
next
  case (Cons d ds')
  with assms(1) have c: "ai \<le> DiffStart d" "bi \<le> DiffReplStart d"
    "seg a ai (DiffStart d) = seg b bi (DiffReplStart d)" by simp_all
  have "seg a ai0 (DiffStart d) = seg a ai0 ai @ seg a ai (DiffStart d)"
    using assms c by (intro seg_seg [symmetric]) simp_all
  moreover have "seg b bi0 (DiffReplStart d) = seg b bi0 bi @ seg b bi (DiffReplStart d)"
    using assms c by (intro seg_seg [symmetric]) linarith+
  ultimately show ?thesis using Cons assms c by simp
qed

lemma covers_extend_right:
  "covers a b ai aj bi bj ds \<Longrightarrow> 0 \<le> ai \<Longrightarrow> 0 \<le> bi \<Longrightarrow> aj \<le> aj1 \<Longrightarrow> aj1 - aj = bj1 - bj \<Longrightarrow>
   seg a aj aj1 = seg b bj bj1 \<Longrightarrow> covers a b ai aj1 bi bj1 ds"
proof (induction ds arbitrary: ai bi)
  case Nil
  then have c: "ai \<le> aj" "aj - ai = bj - bi" "seg a ai aj = seg b bi bj" by simp_all
  have "seg a ai aj1 = seg a ai aj @ seg a aj aj1"
    using Nil.prems c by (intro seg_seg [symmetric]) simp_all
  moreover have "seg b bi bj1 = seg b bi bj @ seg b bj bj1"
    using Nil.prems c by (intro seg_seg [symmetric]) linarith+
  ultimately show ?case using Nil.prems c by simp
next
  case (Cons d ds)
  from Cons.prems(1) have c: "covers a b (DiffEnd d) aj (DiffReplEnd d) bj ds"
    "ai \<le> DiffStart d" "DiffStart d \<le> DiffEnd d" "bi \<le> DiffReplStart d" "DiffReplStart d \<le> DiffReplEnd d"
    "DiffEnd d \<le> aj" "DiffReplEnd d \<le> bj"
    by simp_all
  have "covers a b (DiffEnd d) aj1 (DiffReplEnd d) bj1 ds"
    using c Cons.prems by (intro Cons.IH) linarith+
  then show ?case using Cons.prems by simp
qed

lemma covers_append:
  "covers a b ai x bi y ds1 \<Longrightarrow> covers a b x aj y bj ds2 \<Longrightarrow> 0 \<le> ai \<Longrightarrow> 0 \<le> bi \<Longrightarrow>
   covers a b ai aj bi bj (ds1 @ ds2)"
proof (induction ds1 arbitrary: ai bi)
  case Nil
  then have "ai \<le> x" "x - ai = y - bi" "seg a ai x = seg b bi y" by simp_all
  with Nil.prems show ?case
    by (simp only: append_Nil) (rule covers_extend_left [of a b x aj y bj ds2 ai bi], simp_all)
next
  case (Cons d ds1)
  from Cons.prems(1) have c: "covers a b (DiffEnd d) x (DiffReplEnd d) y ds1"
    "ai \<le> DiffStart d" "DiffStart d \<le> DiffEnd d" "bi \<le> DiffReplStart d" "DiffReplStart d \<le> DiffReplEnd d"
    by simp_all
  have "covers a b (DiffEnd d) aj (DiffReplEnd d) bj (ds1 @ ds2)"
    using c Cons.prems by (intro Cons.IH) linarith+
  moreover have "x \<le> aj" "y \<le> bj"
    using Cons.prems(2) by (cases ds2; simp; linarith)+
  moreover have "DiffEnd d \<le> x" "DiffReplEnd d \<le> y"
    using c(1) by (cases ds1; simp; linarith)+
  ultimately show ?case using Cons.prems(1) by simp
qed

lemma covers_mergeDiffs:
  "covers a b ai aj bi bj ds \<Longrightarrow> covers a b ai aj bi bj (mergeDiffs ds)"
proof (induction ds arbitrary: ai bi rule: mergeDiffs.induct)
  case (1 d e ds)
  show ?case
  proof (cases "DiffEnd d = DiffStart e \<and> DiffReplEnd d = DiffReplStart e")
    case True
    have "covers a b ai aj bi bj (d\<lparr>DiffEnd := DiffEnd e, DiffReplEnd := DiffReplEnd e\<rparr> # ds)"
      using "1.prems" True by simp
    from "1.IH"(1) [OF True this] True show ?thesis by simp
  next
    case False
    from "1.prems" have "covers a b (DiffEnd d) aj (DiffReplEnd d) bj (e # ds)" by simp
    from "1.IH"(2) [OF False this] "1.prems" False show ?thesis by simp
  qed
qed simp_all

subsection \<open>The engine returns diffs that cover the window\<close>

lemma lcsWindow_covers:
  "0 \<le> ai \<Longrightarrow> ai \<le> aj \<Longrightarrow> aj \<le> int (length a) \<Longrightarrow> 0 \<le> bi \<Longrightarrow> bi \<le> bj \<Longrightarrow> bj \<le> int (length b) \<Longrightarrow>
   \<exists>ds. lcsWindow a b ai aj bi bj = Inr ds \<and> covers a b ai aj bi bj ds"
proof (induction a b ai aj bi bj rule: lcsWindow.induct)
  case (1 a b ai aj bi bj)
  note w = "1.prems"
  from commonPrefixLen_ok [OF w] obtain pre where
    pre: "commonPrefixLen a b ai aj bi bj = Inr pre" "0 \<le> pre" "pre \<le> aj - ai" "pre \<le> bj - bi"
         "seg a ai (ai + pre) = seg b bi (bi + pre)"
    by blast
  define ai' bi' where "ai' = ai + pre" and "bi' = bi + pre"
  have w1: "0 \<le> ai'" "ai' \<le> aj" "0 \<le> bi'" "bi' \<le> bj"
    using w pre by (simp_all add: ai'_def bi'_def)
  from commonSuffixLen_ok [OF w1(1,2) w(3) w1(3,4) w(6)] obtain suf where
    suf: "commonSuffixLen a b ai' aj bi' bj = Inr suf" "0 \<le> suf" "suf \<le> aj - ai'" "suf \<le> bj - bi'"
         "seg a (aj - suf) aj = seg b (bj - suf) bj"
    by blast
  define aj' bj' where "aj' = aj - suf" and "bj' = bj - suf"
  have w2: "ai' \<le> aj'" "aj' \<le> int (length a)" "bi' \<le> bj'" "bj' \<le> int (length b)" "aj' \<le> aj"
    using w suf by (simp_all add: aj'_def bj'_def)
  have unfold: "lcsWindow a b ai aj bi bj =
       (if aj' \<le> ai' \<or> bj' \<le> bi'
        then (if aj' \<le> ai' \<and> bj' \<le> bi' then Inr []
              else Inr [\<lparr>DiffStart = ai', DiffEnd = aj', DiffReplStart = bi', DiffReplEnd = bj'\<rparr>])
        else (case anchor a b ai' aj' bi' bj' of
                Inl p \<Rightarrow> Inl p
              | Inr c \<Rightarrow>
                  (case lcsWindow a b ai' (fst c) bi' (snd c) of
                     Inl p \<Rightarrow> Inl p
                   | Inr left \<Rightarrow>
                       (case lcsWindow a b (fst c) aj' (snd c) bj' of
                          Inl p \<Rightarrow> Inl p
                        | Inr right \<Rightarrow> Inr (left @ right)))))"
  proof -
    have s: "commonSuffixLen a b (ai + pre) aj (bi + pre) bj = Inr suf"
      using suf(1) by (simp only: ai'_def bi'_def)
    have "lcsWindow a b ai aj bi bj =
       (if aj - suf \<le> ai + pre \<or> bj - suf \<le> bi + pre
        then (if aj - suf \<le> ai + pre \<and> bj - suf \<le> bi + pre then Inr []
              else Inr [\<lparr>DiffStart = ai + pre, DiffEnd = aj - suf,
                         DiffReplStart = bi + pre, DiffReplEnd = bj - suf\<rparr>])
        else (case anchor a b (ai + pre) (aj - suf) (bi + pre) (bj - suf) of
                Inl p \<Rightarrow> Inl p
              | Inr c \<Rightarrow>
                  (case lcsWindow a b (ai + pre) (fst c) (bi + pre) (snd c) of
                     Inl p \<Rightarrow> Inl p
                   | Inr left \<Rightarrow>
                       (case lcsWindow a b (fst c) (aj - suf) (snd c) (bj - suf) of
                          Inl p \<Rightarrow> Inl p
                        | Inr right \<Rightarrow> Inr (left @ right)))))"
      by (subst lcsWindow.simps) (simp only: pre(1) s sum.case)
    then show ?thesis
      by (simp only: ai'_def bi'_def aj'_def bj'_def)
  qed
  have inner: "\<exists>ds. lcsWindow a b ai aj bi bj = Inr ds \<and> covers a b ai' aj' bi' bj' ds"
  proof (cases "aj' \<le> ai' \<or> bj' \<le> bi'")
    case True
    show ?thesis
    proof (cases "aj' \<le> ai' \<and> bj' \<le> bi'")
      case both: True
      then have "aj' = ai'" "bj' = bi'" using w2 by simp_all
      then show ?thesis using unfold both by simp
    next
      case one: False
      then show ?thesis using unfold True w2 by simp
    qed
  next
    case False
    then have ne: "ai' < aj'" "bi' < bj'" by simp_all
    from anchor_ok [OF w1(1) ne(1) w2(2) w1(3) ne(2) w2(4)] obtain c where
      c: "anchor a b ai' aj' bi' bj' = Inr c" "ai' \<le> fst c" "fst c \<le> aj'" "bi' \<le> snd c" "snd c \<le> bj'"
      by blast
    have cond: "\<not> (aj - suf \<le> ai + pre \<or> bj - suf \<le> bi + pre)"
      using False by (simp add: ai'_def bi'_def aj'_def bj'_def)
    have c': "anchor a b (ai + pre) (aj - suf) (bi + pre) (bj - suf) = Inr c"
      using c(1) by (simp add: ai'_def bi'_def aj'_def bj'_def)
    have suf': "commonSuffixLen a b (ai + pre) aj (bi + pre) bj = Inr suf"
      using suf(1) by (simp add: ai'_def bi'_def)
    have "\<exists>ds. lcsWindow a b (ai + pre) (fst c) (bi + pre) (snd c) = Inr ds \<and>
               covers a b (ai + pre) (fst c) (bi + pre) (snd c) ds"
      using w1 w2 c by (intro "1.IH"(1) [OF pre(1) suf' cond c']) (simp_all add: ai'_def bi'_def)
    then obtain left where left: "lcsWindow a b ai' (fst c) bi' (snd c) = Inr left"
        "covers a b ai' (fst c) bi' (snd c) left"
      by (auto simp: ai'_def bi'_def)
    have "\<exists>ds. lcsWindow a b (fst c) (aj - suf) (snd c) (bj - suf) = Inr ds \<and>
               covers a b (fst c) (aj - suf) (snd c) (bj - suf) ds"
      using w1 w2 c left(1)
      by (intro "1.IH"(2) [OF pre(1) suf' cond c']) (simp_all add: ai'_def bi'_def aj'_def bj'_def)
    then obtain right where right: "lcsWindow a b (fst c) aj' (snd c) bj' = Inr right"
        "covers a b (fst c) aj' (snd c) bj' right"
      by (auto simp: aj'_def bj'_def)
    have "covers a b ai' aj' bi' bj' (left @ right)"
      using left(2) right(2) w1 by (intro covers_append [of a b ai' "fst c" bi' "snd c"]) simp_all
    moreover have "lcsWindow a b ai aj bi bj = Inr (left @ right)"
      by (simp only: unfold if_not_P [OF False] c(1) left(1) right(1) sum.case)
    ultimately show ?thesis by blast
  qed
  then obtain ds where ds: "lcsWindow a b ai aj bi bj = Inr ds" "covers a b ai' aj' bi' bj' ds"
    by blast
  have e1: "aj - aj' = bj - bj'" by (simp add: aj'_def bj'_def)
  have e2: "seg a aj' aj = seg b bj' bj" using suf(5) by (simp only: aj'_def bj'_def)
  have r: "covers a b ai' aj bi' bj ds"
    by (rule covers_extend_right [OF ds(2) w1(1) w1(3) w2(5) e1 e2])
  have l1: "ai \<le> ai'" using pre(2) by (simp add: ai'_def)
  have l2: "ai' - ai = bi' - bi" by (simp add: ai'_def bi'_def)
  have l3: "seg a ai ai' = seg b bi bi'" using pre(5) by (simp only: ai'_def bi'_def)
  have "covers a b ai aj bi bj ds"
    by (rule covers_extend_left [OF r w(1) l1 w(4) l2 l3])
  with ds(1) show ?case by blast
qed

lemma DiffText_covers:
  "\<exists>ds. DiffText a b = Inr ds \<and> covers a b 0 (int (length a)) 0 (int (length b)) ds"
proof -
  from lcsWindow_covers [of 0 "int (length a)" a 0 "int (length b)" b]
  obtain ds where "lcsWindow a b 0 (int (length a)) 0 (int (length b)) = Inr ds"
    "covers a b 0 (int (length a)) 0 (int (length b)) ds"
    by auto
  then show ?thesis by (auto simp: DiffText_def intro: covers_mergeDiffs)
qed

subsection \<open>From the diffs to the edits\<close>

lemma diffsToEdits_covers:
  "covers a b ai (int (length a)) bi (int (length b)) ds \<Longrightarrow> 0 \<le> ai \<Longrightarrow> 0 \<le> bi \<Longrightarrow>
   \<exists>es. diffsToEdits b ds = Inr es \<and> chain (int (length a)) ai es \<and> splice a ai es = drop (nat bi) b"
proof (induction ds arbitrary: ai bi)
  case Nil
  then have "seg a ai (int (length a)) = seg b bi (int (length b))" by simp
  then have "drop (nat ai) a = drop (nat bi) b"
    using Nil.prems by (simp add: seg_to_end)
  then show ?case by simp
next
  case (Cons d ds)
  from Cons.prems(1) have c: "covers a b (DiffEnd d) (int (length a)) (DiffReplEnd d) (int (length b)) ds"
    "ai \<le> DiffStart d" "DiffStart d \<le> DiffEnd d" "DiffEnd d \<le> int (length a)"
    "bi \<le> DiffReplStart d" "DiffReplStart d \<le> DiffReplEnd d" "DiffReplEnd d \<le> int (length b)"
    "seg a ai (DiffStart d) = seg b bi (DiffReplStart d)"
    by simp_all
  have "0 \<le> DiffEnd d" "0 \<le> DiffReplEnd d" using c Cons.prems by linarith+
  from Cons.IH [OF c(1) this] obtain es where
    es: "diffsToEdits b ds = Inr es" "chain (int (length a)) (DiffEnd d) es"
        "splice a (DiffEnd d) es = drop (nat (DiffReplEnd d)) b"
    by blast
  define e where "e = \<lparr>Start = DiffStart d, End = DiffEnd d, New = seg b (DiffReplStart d) (DiffReplEnd d)\<rparr>"
  have sl: "slice b (DiffReplStart d) (DiffReplEnd d) = Inr (seg b (DiffReplStart d) (DiffReplEnd d))"
    using c Cons.prems by (intro slice_seg) linarith+
  have run: "diffsToEdits b (d # ds) = Inr (e # es)"
    by (simp add: sl es(1) e_def)
  have ch: "chain (int (length a)) ai (e # es)"
    using es(2) c Cons.prems by (simp add: e_def inBounds_def)
  have A: "seg b (DiffReplStart d) (DiffReplEnd d) @ drop (nat (DiffReplEnd d)) b = drop (nat (DiffReplStart d)) b"
    using c Cons.prems by (intro seg_drop) linarith+
  have B: "seg b bi (DiffReplStart d) @ drop (nat (DiffReplStart d)) b = drop (nat bi) b"
    using c Cons.prems by (intro seg_drop) linarith+
  have "splice a ai (e # es) =
          seg b bi (DiffReplStart d) @ seg b (DiffReplStart d) (DiffReplEnd d) @ drop (nat (DiffReplEnd d)) b"
    by (simp only: splice_Cons_seg) (simp add: e_def c(8) es(3))
  then have "splice a ai (e # es) = drop (nat bi) b"
    by (simp only: A B)
  with run ch show ?case by blast
qed

lemma diffASCII_chain:
  "\<exists>E. diffASCII a b = Inr E \<and> chain (int (length a)) 0 E \<and> splice a 0 E = b"
proof -
  from DiffText_covers [of a b] obtain ds where
    ds: "DiffText a b = Inr ds" "covers a b 0 (int (length a)) 0 (int (length b)) ds"
    by blast
  from diffsToEdits_covers [OF ds(2)] obtain es where
    "diffsToEdits b ds = Inr es" "chain (int (length a)) 0 es" "splice a 0 es = b"
    by auto
  then show ?thesis by (auto simp: diffASCII_def ds(1))
qed

text \<open>
  C1. For all byte strings \<open>A\<close> and \<open>B\<close> the binary diff returns an edit list (it
  does not panic), and applying that list to \<open>A\<close> succeeds, with no error and no panic,
  and returns exactly \<open>B\<close>: \<open>Apply(A, Binary(A, B)) = (B, nil)\<close>. The path through the
  runes, which \<open>Binary\<close> never takes, is arbitrary.
\<close>

theorem Binary_round_trip:
  "\<exists>E. Binary runesPath A B = Inr E \<and> Apply A E = Inr (B, None)"
proof -
  have "\<exists>E. Binary runesPath A B = Inr E \<and> chain (int (length A)) 0 E \<and> splice A 0 E = B"
  proof (cases "A = B")
    case True
    then show ?thesis by (simp add: Binary_def diffText_def)
  next
    case False
    with diffASCII_chain [of A B] show ?thesis by (simp add: Binary_def diffText_def)
  qed
  then obtain E where E: "Binary runesPath A B = Inr E" "chain (int (length A)) 0 E" "splice A 0 E = B"
    by blast
  from chain_validate [OF E(2)] obtain sz where "validate A E = Inr (E, sz)" by blast
  from Apply_valid [OF this] E(1,3) show ?thesis by simp
qed

end
